theory Spec2Isabelle
  imports Complex_Main "HOL-Library.AList"
begin

section \<open>Product-task identifiers\<close>

text \<open>
  Python strings are modelled as \<open>string\<close> (ASCII text).  The helpers below are the
  library functions that \<open>create_product_task_id\<close> and \<open>parse_product_task_id\<close> call:
  \<open>str.replace\<close>, the decimal rendering of an integer in an f-string, \<open>str.split\<close>
  and \<open>int\<close> on a string.  The interpreter's configurable limit on the number of digits
  in an integer conversion is not modelled.
\<close>

datatype py_value = PyStr string | PyInt int | PyNone







text \<open>\<open>s.split(c)\<close> for a one-character separator.\<close>

fun str_split :: "char \<Rightarrow> string \<Rightarrow> string list" where
  "str_split c [] = [[]]"
| "str_split c (x # xs) =
     (if x = c then [] # str_split c xs
      else (case str_split c xs of
              [] \<Rightarrow> [[x]]
            | p # ps \<Rightarrow> (x # p) # ps))"

definition is_space :: "char \<Rightarrow> bool" where
  "is_space c = (let k = of_char c :: nat in (9 \<le> k \<and> k \<le> 13) \<or> (28 \<le> k \<and> k \<le> 32))"

definition is_digit :: "char \<Rightarrow> bool" where
  "is_digit c = (let k = of_char c :: nat in 48 \<le> k \<and> k \<le> 57)"

definition digit_val :: "char \<Rightarrow> nat" where
  "digit_val c = of_char c - 48"

definition str_strip :: "string \<Rightarrow> string" where
  "str_strip s = rev (dropWhile is_space (rev (dropWhile is_space s)))"

definition parse_digits :: "string \<Rightarrow> nat option" where
  "parse_digits ds =
     (if ds \<noteq> [] \<and> list_all is_digit ds
      then Some (foldl (\<lambda>acc c. acc * 10 + digit_val c) 0 ds)
      else None)"

text \<open>
  \<open>int(s)\<close> on a string without underscores: surrounding whitespace is stripped, one
  optional sign, then at least one decimal digit.  \<open>None\<close> is the \<open>ValueError\<close>.
\<close>

definition py_int :: "string \<Rightarrow> int option" where
  "py_int s =
     (case str_strip s of
        [] \<Rightarrow> None
      | c # r \<Rightarrow>
          if c = CHR ''-'' then map_option (\<lambda>n. - int n) (parse_digits r)
          else if c = CHR ''+'' then map_option int (parse_digits r)
          else map_option int (parse_digits (c # r)))"


definition parse_product_task_id :: "py_value \<Rightarrow> string option \<times> int option" where
  "parse_product_task_id product_task_id =
     (case product_task_id of
        PyStr s \<Rightarrow>
          (case str_split CHR ''_'' s of
             [p0, p1] \<Rightarrow>
               (case py_int p1 of
                  Some task_num \<Rightarrow> (Some (''Product '' @ p0), Some task_num)
                | None \<Rightarrow> (None, None))
           | _ \<Rightarrow> (None, None))
      | _ \<Rightarrow> (None, None))"




section \<open>Calendar and data model\<close>

text \<open>
  A \<open>datetime\<close> is a count of minutes from Monday 2025-08-18 00:00; every time the
  scheduler produces is minute-aligned.  The calendar day is the quotient by 1440 and
  the weekday (Monday = 0) its remainder modulo 7.
\<close>

type_synonym datetime = int
type_synonym task_id = string

datatype py_error = KeyError | RuntimeError | RecursionError | ValueError | ZeroDivisionError

definition date :: "datetime \<Rightarrow> int" where
  "date t = t div 1440"

definition weekday :: "datetime \<Rightarrow> int" where
  "weekday t = (t div 1440) mod 7"

text \<open>\<open>t.replace(hour=h, minute=m, second=0)\<close>\<close>

definition replace_time :: "datetime \<Rightarrow> int \<Rightarrow> int \<Rightarrow> datetime" where
  "replace_time t h m = (t div 1440) * 1440 + h * 60 + m"

text \<open>\<open>datetime(2025, 8, 22, 6, 0)\<close>, a Friday.\<close>

definition start_date :: datetime where
  "start_date = 4 * 1440 + 6 * 60"

record task_info =
  task_duration :: int
  task_team :: string
  task_mechanics_required :: int
  task_is_quality :: bool
  task_task_type :: string
  task_product_line :: "string option"

record assignment =
  start_time :: datetime
  end_time :: datetime
  team :: string
  product_line :: string
  duration :: int
  mechanics_required :: int
  is_quality :: bool
  task_type :: string
  shift :: string

record constraint =
  First :: task_id
  Second :: task_id
  Relationship :: string

text \<open>
  The value of \<open>calculate_slack_time\<close>: \<open>float('inf')\<close> or a number of hours.  Hours are
  exact rationals; the rounding of floating-point arithmetic is not modelled.
\<close>

datatype slack = Infinity | Hours rat

text \<open>An entry of the global priority list (the formatted display name is left out).\<close>

record priority_entry =
  entry_task_id :: task_id
  entry_task_num :: "int option"
  entry_task_type :: string
  entry_product_line :: string
  entry_team :: string
  scheduled_start :: datetime
  scheduled_end :: datetime
  duration_minutes :: int
  entry_mechanics_required :: int
  slack_hours :: slack
  priority_score :: rat
  entry_shift :: string
  global_priority :: nat

text \<open>
  The fields of \<open>ProductionScheduler\<close> that the scheduling core reads or writes.
  Dictionaries are association lists in insertion order with distinct keys, read with
  \<open>map_of\<close> and written with \<open>AList.update\<close>.
  For quality-inspection instances the source stores \<open>None\<close> as the task's team and
  never reads it.
\<close>

record scheduler =
  late_part_delay_days :: rat
  tasks :: "(task_id \<times> task_info) list"
  precedence_constraints :: "constraint list"
  late_part_constraints :: "constraint list"
  rework_constraints :: "constraint list"
  late_part_tasks :: "task_id list"
  rework_tasks :: "task_id list"
  on_dock_dates :: "(task_id \<times> datetime) list"
  task_to_product :: "(task_id \<times> string) list"
  quality_inspections :: "(task_id \<times> task_id) list"
  quality_requirements :: "(task_id \<times> task_id) list"
  team_shifts :: "(string \<times> string list) list"
  team_capacity :: "(string \<times> int) list"
  quality_team_shifts :: "(string \<times> string list) list"
  quality_team_capacity :: "(string \<times> int) list"
  delivery_dates :: "(string \<times> datetime) list"
  holidays :: "(string \<times> datetime list) list"
  product_tasks :: "(string \<times> task_id list) list"
  task_schedule :: "(task_id \<times> assignment) list"
  dynamic_constraints_cache :: "constraint list option"
  original_team_capacity :: "(string \<times> int) list"
  original_quality_capacity :: "(string \<times> int) list"
  global_priority_list :: "priority_entry list"

text \<open>
  What a run reads from outside the object: the wall clock (\<open>datetime.now()\<close>), the
  iteration order of a \<open>set\<close> of task identifiers (fixed by string hashing; any order
  is the order by some rank function) and the interpreter's recursion limit.
\<close>

record env =
  now :: datetime
  set_rank :: "task_id \<Rightarrow> nat"
  recursion_limit :: nat

definition set_iter :: "env \<Rightarrow> task_id list \<Rightarrow> task_id list" where
  "set_iter e xs = sort_key (set_rank e) (remdups xs)"

definition dict_get :: "('k \<times> 'v) list \<Rightarrow> 'k \<Rightarrow> 'v \<Rightarrow> 'v" where
  "dict_get d k dflt = (case map_of d k of Some v \<Rightarrow> v | None \<Rightarrow> dflt)"

definition dict_has :: "('k \<times> 'v) list \<Rightarrow> 'k \<Rightarrow> bool" where
  "dict_has d k = (map_of d k \<noteq> None)"


subsection \<open>Dynamic dependencies\<close>

definition has_edge :: "constraint list \<Rightarrow> task_id \<Rightarrow> task_id \<Rightarrow> bool" where
  "has_edge cs a b = list_ex (\<lambda>c. First c = a \<and> Second c = b) cs"

definition mk_constraint :: "task_id \<Rightarrow> task_id \<Rightarrow> string \<Rightarrow> constraint" where
  "mk_constraint a b r = \<lparr>First = a, Second = b, Relationship = r\<rparr>"

text \<open>Redirection through the quality inspection of \<open>first_task\<close>, if it has one.\<close>

definition add_redirected :: "scheduler \<Rightarrow> constraint \<Rightarrow> constraint list \<Rightarrow> constraint list" where
  "add_redirected s c dyn =
     (case map_of (quality_requirements s) (First c) of
        Some qi_task \<Rightarrow>
          (if has_edge dyn (First c) qi_task then dyn
           else dyn @ [mk_constraint (First c) qi_task ''Finish = Start''])
          @ [mk_constraint qi_task (Second c) (Relationship c)]
      | None \<Rightarrow> dyn @ [mk_constraint (First c) (Second c) (Relationship c)])"

definition add_precedence :: "scheduler \<Rightarrow> constraint \<Rightarrow> constraint list \<Rightarrow> constraint list" where
  "add_precedence s c dyn =
     (if \<not> dict_has (tasks s) (First c) \<or> \<not> dict_has (tasks s) (Second c) then dyn
      else add_redirected s c dyn)"

definition add_late_part :: "scheduler \<Rightarrow> constraint \<Rightarrow> constraint list \<Rightarrow> constraint list" where
  "add_late_part s c dyn =
     (if \<not> dict_has (tasks s) (Second c) then dyn
      else dyn @ [mk_constraint (First c) (Second c) ''Finish <= Start''])"

definition add_rework :: "scheduler \<Rightarrow> constraint \<Rightarrow> constraint list \<Rightarrow> constraint list" where
  "add_rework s c dyn =
     (if \<not> dict_has (tasks s) (Second c) \<and> Second c \<notin> set (rework_tasks s) then dyn
      else add_redirected s c dyn)"

definition add_qi :: "task_id \<times> task_id \<Rightarrow> constraint list \<Rightarrow> constraint list" where
  "add_qi pq dyn =
     (if has_edge dyn (fst pq) (snd pq) then dyn
      else dyn @ [mk_constraint (fst pq) (snd pq) ''Finish = Start''])"

definition compute_dynamic_constraints :: "scheduler \<Rightarrow> constraint list" where
  "compute_dynamic_constraints s =
     (let d1 = fold (add_precedence s) (precedence_constraints s) [];
          d2 = fold (add_late_part s) (late_part_constraints s) d1;
          d3 = fold (add_rework s) (rework_constraints s) d2
      in fold add_qi (quality_requirements s) d3)"

definition build_dynamic_dependencies :: "scheduler \<Rightarrow> constraint list \<times> scheduler" where
  "build_dynamic_dependencies s =
     (case dynamic_constraints_cache s of
        Some cached \<Rightarrow> (cached, s)
      | None \<Rightarrow>
          (let dyn = compute_dynamic_constraints s
           in (dyn, s\<lparr>dynamic_constraints_cache := Some dyn\<rparr>)))"

section \<open>Working time and capacity\<close>

definition is_working_day :: "scheduler \<Rightarrow> datetime \<Rightarrow> string \<Rightarrow> bool" where
  "is_working_day s d pl =
     (if weekday d \<ge> 5 then False
      else if date d \<in> set (map date (dict_get (holidays s) pl [])) then False
      else True)"

text \<open>\<open>self.team_capacity.get(team, 0) or self.quality_team_capacity.get(team, 0)\<close>\<close>

definition capacity_of :: "scheduler \<Rightarrow> string \<Rightarrow> int" where
  "capacity_of s tm =
     (let c = dict_get (team_capacity s) tm 0
      in if c \<noteq> 0 then c else dict_get (quality_team_capacity s) tm 0)"

text \<open>Head count in use on a team at one minute, over the entries of a schedule.\<close>

definition usage_at :: "(task_id \<times> assignment) list \<Rightarrow> string \<Rightarrow> datetime \<Rightarrow> int" where
  "usage_at sch tm t =
     sum_list (map (\<lambda>(task, a). mechanics_required a)
       (filter (\<lambda>(task, a). team a = tm \<and> start_time a \<le> t \<and> t < end_time a) sch))"

function capacity_loop ::
  "(task_id \<times> assignment) list \<Rightarrow> string \<Rightarrow> int \<Rightarrow> int \<Rightarrow> datetime \<Rightarrow> datetime \<Rightarrow> bool" where
  "capacity_loop sch tm capacity mechanics_needed current end_t =
     (if current < end_t then
        (if usage_at sch tm current + mechanics_needed > capacity then False
         else capacity_loop sch tm capacity mechanics_needed (current + 1) end_t)
      else True)"
  by pat_completeness auto
termination
  by (relation "measure (\<lambda>(sch, tm, capacity, needed, current, end_t). nat (end_t - current))") auto

declare capacity_loop.simps [simp del]

definition check_team_capacity_at_time ::
  "scheduler \<Rightarrow> string \<Rightarrow> datetime \<Rightarrow> datetime \<Rightarrow> int \<Rightarrow> bool" where
  "check_team_capacity_at_time s tm start_t end_t mechanics_needed =
     capacity_loop (task_schedule s) tm (capacity_of s tm) mechanics_needed start_t end_t"

definition in_shift_window :: "string \<Rightarrow> int \<Rightarrow> bool" where
  "in_shift_window sh current_minutes =
     (if sh = ''1st'' \<and> 360 \<le> current_minutes \<and> current_minutes < 870 then True
      else if sh = ''2nd'' \<and> 870 \<le> current_minutes \<and> current_minutes < 1380 then True
      else if sh = ''3rd'' \<and> (current_minutes \<ge> 1380 \<or> current_minutes < 360) then True
      else False)"

text \<open>
  \<open>any(t for t, shifts in self.quality_team_shifts.items() if shift in shifts)\<close>: the
  generator yields team names, so a team counts when its name is non-empty.
\<close>

definition any_quality_team :: "scheduler \<Rightarrow> string \<Rightarrow> bool" where
  "any_quality_team s sh =
     list_ex (\<lambda>(t, shifts). sh \<in> set shifts \<and> t \<noteq> []) (quality_team_shifts s)"

definition available_shift :: "scheduler \<Rightarrow> string \<Rightarrow> bool \<Rightarrow> int \<Rightarrow> string option" where
  "available_shift s tm quality current_minutes =
     (if quality then
        find (\<lambda>sh. in_shift_window sh current_minutes \<and> any_quality_team s sh)
          [''1st'', ''2nd'', ''3rd'']
      else
        find (\<lambda>sh. in_shift_window sh current_minutes) (dict_get (team_shifts s) tm []))"

definition next_shift_start :: "datetime \<Rightarrow> datetime" where
  "next_shift_start current_time =
     (let current_minutes = current_time mod 1440 in
      if current_minutes < 360 then replace_time current_time 6 0
      else if current_minutes < 870 then replace_time current_time 14 30
      else if current_minutes < 1380 then replace_time current_time 23 0
      else replace_time current_time 6 0 + 1440)"

text \<open>
  The search loop of \<open>get_next_working_time_with_capacity\<close>; the first argument is the
  number of iterations left, and running out of them is the \<open>RuntimeError\<close>.
\<close>

fun working_time_loop ::
  "nat \<Rightarrow> scheduler \<Rightarrow> datetime \<Rightarrow> string \<Rightarrow> string \<Rightarrow> int \<Rightarrow> int \<Rightarrow> bool
     \<Rightarrow> py_error + (datetime \<times> string)" where
  "working_time_loop 0 s current_time pl tm mechanics_needed dur quality = Inl RuntimeError"
| "working_time_loop (Suc k) s current_time pl tm mechanics_needed dur quality =
     (if \<not> is_working_day s current_time pl then
        working_time_loop k s (replace_time current_time 6 0 + 1440) pl tm mechanics_needed dur quality
      else
        (case available_shift s tm quality (current_time mod 1440) of
           Some sh \<Rightarrow>
             (if sh \<noteq> [] then
                (if check_team_capacity_at_time s tm current_time (current_time + dur) mechanics_needed
                 then Inr (current_time, sh)
                 else working_time_loop k s (current_time + 1) pl tm mechanics_needed dur quality)
              else working_time_loop k s (next_shift_start current_time) pl tm mechanics_needed dur quality)
         | None \<Rightarrow>
             working_time_loop k s (next_shift_start current_time) pl tm mechanics_needed dur quality))"

definition get_next_working_time_with_capacity ::
  "scheduler \<Rightarrow> datetime \<Rightarrow> string \<Rightarrow> string \<Rightarrow> int \<Rightarrow> int \<Rightarrow> bool
     \<Rightarrow> py_error + (datetime \<times> string)" where
  "get_next_working_time_with_capacity s current_time pl tm mechanics_needed dur quality =
     working_time_loop 5000 s current_time pl tm mechanics_needed dur quality"

text \<open>\<open>min(team_loads.items(), key=...)\<close>: the first entry with the least load.\<close>

fun first_min :: "(string \<times> int) list \<Rightarrow> (string \<times> int) option" where
  "first_min [] = None"
| "first_min (x # xs) =
     (case first_min xs of
        None \<Rightarrow> Some x
      | Some y \<Rightarrow> if snd y < snd x then Some y else Some x)"

definition team_load :: "scheduler \<Rightarrow> string \<Rightarrow> int" where
  "team_load s tm =
     sum_list (map (\<lambda>(task, a). duration a * mechanics_required a)
       (filter (\<lambda>(task, a). team a = tm) (task_schedule s)))"

definition assign_quality_team_balanced :: "scheduler \<Rightarrow> string \<Rightarrow> int \<Rightarrow> string option" where
  "assign_quality_team_balanced s sh mechanics_needed =
     (let available_teams =
            map fst (filter (\<lambda>(t, shifts). sh \<in> set shifts) (quality_team_shifts s));
          team_loads =
            map (\<lambda>t. (t, team_load s t))
              (filter (\<lambda>t. \<not> dict_get (quality_team_capacity s) t 0 < mechanics_needed) available_teams)
      in map_option fst (first_min team_loads))"

section \<open>Priority\<close>

text \<open>\<open>if not product_line\<close>: \<open>None\<close> and the empty string are both false.\<close>

definition falsy :: "string option \<Rightarrow> bool" where
  "falsy x = (x = None \<or> x = Some [])"

text \<open>
  \<open>get_path_length\<close> inside \<open>calculate_critical_path_length\<close>.  The first argument is
  the recursion depth still available; the memo table only saves repeated work and is
  left out.
\<close>

fun get_path_length :: "nat \<Rightarrow> scheduler \<Rightarrow> constraint list \<Rightarrow> task_id \<Rightarrow> py_error + int" where
  "get_path_length 0 s dyn task = Inl RecursionError"
| "get_path_length (Suc k) s dyn task =
     (case map_of (tasks s) task of
        None \<Rightarrow> Inl KeyError
      | Some ti \<Rightarrow>
          (case fold (\<lambda>c acc.
                  case acc of
                    Inl err \<Rightarrow> Inl err
                  | Inr max_successor_path \<Rightarrow>
                      if First c = task \<and> dict_has (tasks s) (Second c) then
                        (case get_path_length k s dyn (Second c) of
                           Inl err \<Rightarrow> Inl err
                         | Inr successor_path \<Rightarrow> Inr (max max_successor_path successor_path))
                      else Inr max_successor_path)
                dyn (Inr 0) of
             Inl err \<Rightarrow> Inl err
           | Inr max_successor_path \<Rightarrow> Inr (task_duration ti + max_successor_path)))"

definition calculate_critical_path_length :: "env \<Rightarrow> scheduler \<Rightarrow> task_id \<Rightarrow> py_error + int" where
  "calculate_critical_path_length e s task =
     get_path_length (recursion_limit e) s (fst (build_dynamic_dependencies s)) task"

text \<open>The product line of a task as \<open>calculate_task_priority\<close> resolves it.\<close>

definition priority_product_line :: "scheduler \<Rightarrow> task_id \<Rightarrow> string option" where
  "priority_product_line s task =
     (let pl = (case map_of (task_to_product s) task of
                  Some p \<Rightarrow> Some p
                | None \<Rightarrow> (case map_of (tasks s) task of
                             Some ti \<Rightarrow> task_product_line ti
                           | None \<Rightarrow> None))
      in if falsy pl then fst (parse_product_task_id (PyStr task)) else pl)"

definition calculate_task_priority :: "env \<Rightarrow> scheduler \<Rightarrow> task_id \<Rightarrow> py_error + rat" where
  "calculate_task_priority e s task =
     (if task \<in> set (late_part_tasks s) then Inr (- 2000)
      else if dict_has (quality_inspections s) task then Inr (- 1000)
      else if task \<in> set (rework_tasks s) then Inr (- 500)
      else
        (let pl = priority_product_line s task in
         if falsy pl then Inr 999999
         else
           (case map_of (delivery_dates s) (the pl) of
              None \<Rightarrow> Inr 999999
            | Some delivery_date \<Rightarrow>
                (let days_to_delivery = (delivery_date - now e) div 1440 in
                 case calculate_critical_path_length e s task of
                   Inl err \<Rightarrow> Inl err
                 | Inr critical_path_length \<Rightarrow>
                     (let dynamic_constraints = fst (build_dynamic_dependencies s);
                          dependent_count = int (length (filter (\<lambda>c. First c = task) dynamic_constraints))
                      in case map_of (tasks s) task of
                           None \<Rightarrow> Inl KeyError
                         | Some ti \<Rightarrow>
                             Inr (of_int ((100 - days_to_delivery) * 10)
                                  + of_int ((10000 - critical_path_length) * 5)
                                  + of_int ((100 - dependent_count) * 3)
                                  + (100 - of_int (task_duration ti) / 10) * 2))))))"

section \<open>The scheduling loop\<close>

text \<open>
  The ready queue.  \<open>heapq\<close> keeps the list as a binary heap; what a run observes is
  that \<open>heappop\<close> returns the least \<open>(priority, task)\<close> pair, priorities compared
  first and identifiers (by character code) on a tie.
\<close>

fun str_less :: "string \<Rightarrow> string \<Rightarrow> bool" where
  "str_less [] [] = False"
| "str_less [] (y # ys) = True"
| "str_less (x # xs) [] = False"
| "str_less (x # xs) (y # ys) =
     ((of_char x :: nat) < of_char y \<or> (x = y \<and> str_less xs ys))"

definition entry_less :: "rat \<times> task_id \<Rightarrow> rat \<times> task_id \<Rightarrow> bool" where
  "entry_less a b = (fst a < fst b \<or> (fst a = fst b \<and> str_less (snd a) (snd b)))"

fun heap_min :: "(rat \<times> task_id) list \<Rightarrow> rat \<times> task_id" where
  "heap_min [] = (0, [])"
| "heap_min [x] = x"
| "heap_min (x # y # ys) = (let m = heap_min (y # ys) in if entry_less m x then m else x)"

definition heappush :: "(rat \<times> task_id) list \<Rightarrow> rat \<times> task_id \<Rightarrow> (rat \<times> task_id) list" where
  "heappush h x = h @ [x]"

definition heappop :: "(rat \<times> task_id) list \<Rightarrow> (rat \<times> task_id) \<times> (rat \<times> task_id) list" where
  "heappop h = (heap_min h, remove1 (heap_min h) h)"

record locals =
  ready_tasks :: "(rat \<times> task_id) list"
  scheduled_count :: nat
  failed_tasks :: "task_id list"
  task_retry_counts :: "task_id \<Rightarrow> nat"

definition set_add :: "'a \<Rightarrow> 'a list \<Rightarrow> 'a list" where
  "set_add x xs = (if x \<in> set xs then xs else xs @ [x])"

definition relationships :: "string list" where
  "relationships = [''Finish <= Start'', ''Finish = Start'', ''Start <= Start'']"

text \<open>The adjacency maps \<open>dependencies\<close> and \<open>dependents\<close>, as insertion sequences.\<close>

definition dependencies :: "constraint list \<Rightarrow> task_id \<Rightarrow> task_id list" where
  "dependencies dyn task =
     map First (filter (\<lambda>c. Second c = task \<and> Relationship c \<in> set relationships) dyn)"

definition dependents :: "constraint list \<Rightarrow> task_id \<Rightarrow> task_id list" where
  "dependents dyn task =
     map Second (filter (\<lambda>c. First c = task \<and> Relationship c \<in> set relationships) dyn)"

definition done_task :: "scheduler \<Rightarrow> locals \<Rightarrow> task_id \<Rightarrow> bool" where
  "done_task s st d = (dict_has (task_schedule s) d \<or> d \<in> set (failed_tasks st))"

definition push_task :: "env \<Rightarrow> scheduler \<Rightarrow> task_id \<Rightarrow> py_error + locals \<Rightarrow> py_error + locals" where
  "push_task e s task acc =
     (case acc of
        Inl err \<Rightarrow> Inl err
      | Inr st \<Rightarrow>
          (case calculate_task_priority e s task of
             Inl err \<Rightarrow> Inl err
           | Inr priority \<Rightarrow> Inr (st\<lparr>ready_tasks := heappush (ready_tasks st) (priority, task)\<rparr>)))"

text \<open>The block that runs when the queue is empty and tasks remain.\<close>

definition refill :: "env \<Rightarrow> scheduler \<Rightarrow> constraint list \<Rightarrow> locals \<Rightarrow> py_error + locals" where
  "refill e s dyn st =
     (let unscheduled = filter (\<lambda>t. \<not> dict_has (task_schedule s) t \<and> t \<notin> set (failed_tasks st))
                          (set_iter e (map fst (tasks s)))
      in fold (\<lambda>task acc.
                 if list_all (done_task s st) (set_iter e (dependencies dyn task))
                 then push_task e s task acc else acc)
           unscheduled (Inr st))"

definition get_earliest_start_for_late_part :: "scheduler \<Rightarrow> task_id \<Rightarrow> datetime" where
  "get_earliest_start_for_late_part s task =
     (case map_of (on_dock_dates s) task of
        None \<Rightarrow> start_date
      | Some on_dock_date \<Rightarrow>
          replace_time (\<lfloor>of_int on_dock_date + late_part_delay_days s * 1440\<rfloor>) 6 0)"

definition is_finish_equals_start :: "constraint list \<Rightarrow> task_id \<Rightarrow> task_id \<Rightarrow> bool" where
  "is_finish_equals_start dyn dep task =
     list_ex (\<lambda>c. First c = dep \<and> Second c = task \<and> Relationship c = ''Finish = Start'') dyn"

definition dep_step ::
  "scheduler \<Rightarrow> constraint list \<Rightarrow> task_id \<Rightarrow> task_id \<Rightarrow> datetime \<Rightarrow> datetime" where
  "dep_step s dyn task dep earliest_start =
     (case map_of (task_schedule s) dep of
        None \<Rightarrow> earliest_start
      | Some a \<Rightarrow>
          (let dep_end = end_time a
           in if is_finish_equals_start dyn dep task then dep_end
              else max earliest_start dep_end))"

definition earliest_start_of :: "env \<Rightarrow> scheduler \<Rightarrow> constraint list \<Rightarrow> task_id \<Rightarrow> datetime" where
  "earliest_start_of e s dyn task =
     (let current_time = start_date;
          e0 = (if task \<in> set (late_part_tasks s)
                then max current_time (get_earliest_start_for_late_part s task)
                else current_time)
      in fold (dep_step s dyn task) (set_iter e (dependencies dyn task)) e0)"

text \<open>
  The slot search of the loop body: \<open>None\<close> is the path that counts a failure.  Every
  exception of the capacity search is swallowed by the \<open>try\<close> around it.
\<close>

definition try_quality_shift ::
  "scheduler \<Rightarrow> datetime \<Rightarrow> string \<Rightarrow> int \<Rightarrow> int \<Rightarrow> string
     \<Rightarrow> (datetime \<times> string \<times> string) option \<Rightarrow> (datetime \<times> string \<times> string) option" where
  "try_quality_shift s earliest pl mechanics_needed dur try_shift acc =
     (case assign_quality_team_balanced s try_shift mechanics_needed of
        None \<Rightarrow> acc
      | Some temp_team \<Rightarrow>
          if temp_team = [] then acc
          else
            (case get_next_working_time_with_capacity s earliest pl temp_team mechanics_needed dur True of
               Inl err \<Rightarrow> acc
             | Inr (temp_start, sh) \<Rightarrow>
                 (case acc of
                    None \<Rightarrow> Some (temp_start, temp_team, try_shift)
                  | Some (slot_start, tm, sh') \<Rightarrow>
                      if temp_start < slot_start then Some (temp_start, temp_team, try_shift)
                      else acc)))"

definition find_slot ::
  "scheduler \<Rightarrow> datetime \<Rightarrow> string \<Rightarrow> task_info \<Rightarrow> (datetime \<times> string \<times> string) option" where
  "find_slot s earliest pl ti =
     (if task_is_quality ti then
        fold (try_quality_shift s earliest pl (task_mechanics_required ti) (task_duration ti))
          [''1st'', ''2nd'', ''3rd''] None
      else
        (case get_next_working_time_with_capacity s earliest pl (task_team ti)
                (task_mechanics_required ti) (task_duration ti) False of
           Inl err \<Rightarrow> None
         | Inr (slot_start, sh) \<Rightarrow> Some (slot_start, task_team ti, sh)))"

definition count_failure :: "rat \<Rightarrow> task_id \<Rightarrow> locals \<Rightarrow> locals" where
  "count_failure priority task st =
     (let n = task_retry_counts st task + 1;
          st1 = st\<lparr>task_retry_counts := (task_retry_counts st)(task := n)\<rparr>
      in if n < 3 then st1\<lparr>ready_tasks := heappush (ready_tasks st1) (priority + 1 / 10, task)\<rparr>
         else st1\<lparr>failed_tasks := set_add task (failed_tasks st1)\<rparr>)"

definition push_dependents ::
  "env \<Rightarrow> scheduler \<Rightarrow> constraint list \<Rightarrow> task_id \<Rightarrow> locals \<Rightarrow> py_error + locals" where
  "push_dependents e s dyn task st =
     fold (\<lambda>dependent acc.
             if done_task s st dependent then acc
             else if list_all (done_task s st) (set_iter e (dependencies dyn dependent))
             then push_task e s dependent acc
             else acc)
       (set_iter e (dependents dyn task)) (Inr st)"

definition place ::
  "scheduler \<Rightarrow> task_id \<Rightarrow> task_info \<Rightarrow> string \<Rightarrow> datetime \<times> string \<times> string \<Rightarrow> scheduler" where
  "place s task ti pl slot =
     (case slot of (slot_start, tm, sh) \<Rightarrow>
        s\<lparr>task_schedule :=
             AList.update task
               \<lparr>start_time = slot_start,
                end_time = slot_start + task_duration ti,
                team = tm,
                product_line = pl,
                duration = task_duration ti,
                mechanics_required = task_mechanics_required ti,
                is_quality = task_is_quality ti,
                task_type = task_task_type ti,
                shift = sh\<rparr>
               (task_schedule s)\<rparr>)"

text \<open>The loop body after the pop and the retry-count check.\<close>

definition schedule_one ::
  "env \<Rightarrow> scheduler \<Rightarrow> constraint list \<Rightarrow> locals \<Rightarrow> rat \<Rightarrow> task_id
     \<Rightarrow> py_error + (scheduler \<times> locals)" where
  "schedule_one e s dyn st priority task =
     (case map_of (tasks s) task of
        None \<Rightarrow> Inl KeyError
      | Some ti \<Rightarrow>
          (let pl0 = task_product_line ti;
               pl = (if falsy pl0 then fst (parse_product_task_id (PyStr task)) else pl0)
           in if falsy pl then Inr (s, st)
              else
                (case find_slot s (earliest_start_of e s dyn task) (the pl) ti of
                   None \<Rightarrow> Inr (s, count_failure priority task st)
                 | Some slot \<Rightarrow>
                     (let s' = place s task ti (the pl) slot;
                          st' = st\<lparr>scheduled_count := scheduled_count st + 1\<rparr>
                      in case push_dependents e s' dyn task st' of
                           Inl err \<Rightarrow> Inl err
                         | Inr st'' \<Rightarrow> Inr (s', st'')))))"

text \<open>
  One pass of the \<open>while\<close> body.  The Boolean is false on \<open>break\<close>.  In non-silent
  mode the refill block breaks when it finds nothing; the queue is then still empty, so
  the test that follows breaks in either mode.
\<close>

definition iteration ::
  "env \<Rightarrow> scheduler \<Rightarrow> constraint list \<Rightarrow> nat \<Rightarrow> locals
     \<Rightarrow> py_error + (bool \<times> scheduler \<times> locals)" where
  "iteration e s dyn total_tasks st =
     (case (if ready_tasks st = [] \<and> scheduled_count st + length (failed_tasks st) < total_tasks
            then refill e s dyn st else Inr st) of
        Inl err \<Rightarrow> Inl err
      | Inr st1 \<Rightarrow>
          if ready_tasks st1 = [] then Inr (False, s, st1)
          else
            (case heappop (ready_tasks st1) of ((priority, task), rest) \<Rightarrow>
               (let st2 = st1\<lparr>ready_tasks := rest\<rparr> in
                if task_retry_counts st2 task \<ge> 3
                then Inr (True, s, st2\<lparr>failed_tasks := set_add task (failed_tasks st2)\<rparr>)
                else
                  (case schedule_one e s dyn st2 priority task of
                     Inl err \<Rightarrow> Inl err
                   | Inr (s', st3) \<Rightarrow> Inr (True, s', st3)))))"

text \<open>
  The \<open>while\<close> loop.  The first argument counts the iterations left before
  \<open>iteration_count\<close> reaches \<open>max_iterations\<close>; \<open>retry_count\<close> is never incremented,
  so its test is always true.
\<close>

fun schedule_loop ::
  "nat \<Rightarrow> env \<Rightarrow> scheduler \<Rightarrow> constraint list \<Rightarrow> nat \<Rightarrow> locals
     \<Rightarrow> py_error + (scheduler \<times> locals)" where
  "schedule_loop 0 e s dyn total_tasks st = Inr (s, st)"
| "schedule_loop (Suc n) e s dyn total_tasks st =
     (if ready_tasks st \<noteq> [] \<or> scheduled_count st < total_tasks then
        (case iteration e s dyn total_tasks st of
           Inl err \<Rightarrow> Inl err
         | Inr (continue, s', st') \<Rightarrow>
             if continue then schedule_loop n e s' dyn total_tasks st' else Inr (s', st'))
      else Inr (s, st))"

section \<open>Validation and the scheduling run\<close>

definition neighbors :: "constraint list \<Rightarrow> task_id \<Rightarrow> task_id list" where
  "neighbors dyn node = map Second (filter (\<lambda>c. First c = node) dyn)"

text \<open>
  \<open>has_cycle_dfs\<close>.  The first argument is the recursion depth still available.  The
  result carries the \<open>visited\<close> set; \<open>rec_stack\<close> is restored by every call that
  returns false, so it is passed down only.
\<close>

fun has_cycle_dfs ::
  "nat \<Rightarrow> env \<Rightarrow> constraint list \<Rightarrow> task_id \<Rightarrow> task_id list \<Rightarrow> task_id list
     \<Rightarrow> py_error + (bool \<times> task_id list)" where
  "has_cycle_dfs 0 e dyn node visited rec_stack = Inl RecursionError"
| "has_cycle_dfs (Suc k) e dyn node visited rec_stack =
     fold (\<lambda>neighbor acc.
             case acc of
               Inl err \<Rightarrow> Inl err
             | Inr (found, vis) \<Rightarrow>
                 if found then acc
                 else if neighbor \<notin> set vis
                   then has_cycle_dfs k e dyn neighbor vis (node # rec_stack)
                 else if neighbor \<in> set (node # rec_stack) then Inr (True, vis)
                 else acc)
       (set_iter e (neighbors dyn node)) (Inr (False, node # visited))"

definition validate_dag :: "env \<Rightarrow> scheduler \<Rightarrow> py_error + bool" where
  "validate_dag e s =
     (let dynamic_constraints = fst (build_dynamic_dependencies s);
          all_tasks_in_constraints =
            concat (map (\<lambda>c. [First c, Second c]) dynamic_constraints);
          missing_tasks = filter (\<lambda>t. \<not> dict_has (tasks s) t) all_tasks_in_constraints
      in if missing_tasks \<noteq> [] then Inr False
         else
           (case fold (\<lambda>node acc.
                    case acc of
                      Inl err \<Rightarrow> Inl err
                    | Inr (found, vis) \<Rightarrow>
                        if found then acc
                        else if node \<notin> set vis
                          then has_cycle_dfs (recursion_limit e) e dynamic_constraints node vis []
                        else acc)
                  (set_iter e all_tasks_in_constraints) (Inr (False, [])) of
              Inl err \<Rightarrow> Inl err
            | Inr (found, vis) \<Rightarrow> Inr (\<not> found)))"

definition initial_locals :: locals where
  "initial_locals =
     \<lparr>ready_tasks = [], scheduled_count = 0, failed_tasks = [], task_retry_counts = (\<lambda>t. 0)\<rparr>"

definition initial_ready :: "env \<Rightarrow> scheduler \<Rightarrow> constraint list \<Rightarrow> py_error + locals" where
  "initial_ready e s dyn =
     fold (\<lambda>task acc. if dependencies dyn task = [] then push_task e s task acc else acc)
       (set_iter e (map fst (tasks s))) (Inr initial_locals)"

text \<open>
  The closing report of non-silent mode divides by \<open>len(self.product_tasks[product])\<close>
  for every product parsed from a scheduled identifier.
\<close>

definition report_divides_by_zero :: "scheduler \<Rightarrow> bool" where
  "report_divides_by_zero s =
     list_ex (\<lambda>(task, a).
                case fst (parse_product_task_id (PyStr task)) of
                  None \<Rightarrow> False
                | Some product \<Rightarrow> length (dict_get (product_tasks s) product []) = 0)
       (task_schedule s)"

text \<open>
  The part of \<open>schedule_tasks\<close> after validation: build the dependencies, seed the
  queue and run the loop.  The loop's local variables are part of the result.
\<close>

definition placement :: "env \<Rightarrow> scheduler \<Rightarrow> py_error + (scheduler \<times> locals)" where
  "placement e s0 =
     (case build_dynamic_dependencies s0 of (dynamic_constraints, s1) \<Rightarrow>
        (let total_tasks = length (tasks s1) in
         case initial_ready e s1 dynamic_constraints of
           Inl err \<Rightarrow> Inl err
         | Inr st \<Rightarrow>
             schedule_loop (total_tasks * 10) e s1 dynamic_constraints total_tasks st))"

text \<open>
  \<open>schedule_tasks\<close> up to the end of the loop.  A failed validation is the
  \<open>ValueError\<close>; validation also fills the dependency cache.
\<close>

definition schedule_run :: "env \<Rightarrow> scheduler \<Rightarrow> bool \<Rightarrow> bool \<Rightarrow> py_error + (scheduler \<times> locals)" where
  "schedule_run e s allow_late_delivery silent_mode =
     (let s0 = s\<lparr>task_schedule := []\<rparr> in
      case (if \<not> silent_mode then validate_dag e s0 else Inr True) of
        Inl err \<Rightarrow> Inl err
      | Inr valid \<Rightarrow> if \<not> valid then Inl ValueError else placement e s0)"

definition schedule_tasks :: "env \<Rightarrow> scheduler \<Rightarrow> bool \<Rightarrow> bool \<Rightarrow> py_error + scheduler" where
  "schedule_tasks e s allow_late_delivery silent_mode =
     (case schedule_run e s allow_late_delivery silent_mode of
        Inl err \<Rightarrow> Inl err
      | Inr (s', st) \<Rightarrow>
          if \<not> silent_mode \<and> report_divides_by_zero s' then Inl ZeroDivisionError
          else Inr s')"

section \<open>Slack and makespan\<close>

definition slack_product_line :: "scheduler \<Rightarrow> task_id \<Rightarrow> string option" where
  "slack_product_line s task =
     (let pl =
        (case map_of (task_to_product s) task of
           Some p \<Rightarrow> Some p
         | None \<Rightarrow>
             (case map_of (tasks s) task of
                Some ti \<Rightarrow> task_product_line ti
              | None \<Rightarrow>
                  (case map_of (quality_inspections s) task of
                     None \<Rightarrow> None
                   | Some primary_task \<Rightarrow>
                       (case map_of (task_to_product s) primary_task of
                          Some p \<Rightarrow> Some p
                        | None \<Rightarrow>
                            (case map_of (tasks s) primary_task of
                               Some ti \<Rightarrow> task_product_line ti
                             | None \<Rightarrow> None)))))
      in if falsy pl then fst (parse_product_task_id (PyStr task)) else pl)"

text \<open>
  One pass of the \<open>for\<close> loop over the constraints for the popped task: the pair is
  \<open>all_successors\<close> (in insertion order) and the identifiers pushed on the stack.
\<close>

definition expand_successors ::
  "constraint list \<Rightarrow> task_id \<Rightarrow> task_id list \<Rightarrow> task_id list \<times> task_id list" where
  "expand_successors dyn current all_successors =
     fold (\<lambda>c (acc, pushed).
             if First c = current \<and> Second c \<notin> set acc
             then (acc @ [Second c], pushed @ [Second c])
             else (acc, pushed))
       dyn (all_successors, [])"

text \<open>The stack loop that collects every task that must follow the given one.\<close>

function successors_loop :: "constraint list \<Rightarrow> task_id list \<Rightarrow> task_id list \<Rightarrow> task_id list" where
  "successors_loop dyn stack all_successors =
     (if stack = [] then all_successors
      else
        (case expand_successors dyn (last stack) all_successors of
           (acc, pushed) \<Rightarrow> successors_loop dyn (butlast stack @ pushed) acc))"
  by pat_completeness auto
termination
proof (relation "measures [\<lambda>(dyn, stack, acc). card (set (map Second dyn) - set acc),
                           \<lambda>(dyn, stack, acc). length stack]")
  show "wf (measures [\<lambda>(dyn, stack, acc). card (set (map Second dyn) - set acc),
                           \<lambda>(dyn, stack, acc). length stack])"
    by simp
next
  fix dyn :: "constraint list" and stack all_successors acc pushed :: "task_id list"
  assume ne: "stack \<noteq> []"
    and xy: "(acc, pushed) = expand_successors dyn (last stack) all_successors"
  have gen: "\<And>cs p0 acc pushed.
      fold (\<lambda>c (acc, pushed).
             if First c = last stack \<and> Second c \<notin> set acc
             then (acc @ [Second c], pushed @ [Second c])
             else (acc, pushed)) cs (all_successors @ p0, p0) = (acc, pushed)
      \<Longrightarrow> acc = all_successors @ pushed
          \<and> set pushed \<subseteq> set p0 \<union> (set (map Second cs) - set (all_successors @ p0))"
  proof -
    fix cs p0 acc pushed
    show "fold (\<lambda>c (acc, pushed).
             if First c = last stack \<and> Second c \<notin> set acc
             then (acc @ [Second c], pushed @ [Second c])
             else (acc, pushed)) cs (all_successors @ p0, p0) = (acc, pushed)
      \<Longrightarrow> acc = all_successors @ pushed
          \<and> set pushed \<subseteq> set p0 \<union> (set (map Second cs) - set (all_successors @ p0))"
    proof (induction cs arbitrary: p0)
      case Nil
      then show ?case by auto
    next
      case (Cons c cs)
      show ?case
      proof (cases "First c = last stack \<and> Second c \<notin> set (all_successors @ p0)")
        case True
        then have "fold (\<lambda>c (acc, pushed).
             if First c = last stack \<and> Second c \<notin> set acc
             then (acc @ [Second c], pushed @ [Second c])
             else (acc, pushed)) cs (all_successors @ (p0 @ [Second c]), p0 @ [Second c])
               = (acc, pushed)"
          using Cons.prems by simp
        from Cons.IH[OF this] show ?thesis using True by auto
      next
        case False
        then have "fold (\<lambda>c (acc, pushed).
             if First c = last stack \<and> Second c \<notin> set acc
             then (acc @ [Second c], pushed @ [Second c])
             else (acc, pushed)) cs (all_successors @ p0, p0) = (acc, pushed)"
          using Cons.prems by auto
        from Cons.IH[OF this] show ?thesis by auto
      qed
    qed
  qed
  have r: "acc = all_successors @ pushed"
    "set pushed \<subseteq> set (map Second dyn) - set all_successors"
    using gen[of dyn "[]" acc pushed] xy[symmetric] by (auto simp: expand_successors_def)
  show "((dyn, butlast stack @ pushed, acc), (dyn, stack, all_successors))
          \<in> measures [\<lambda>(dyn, stack, acc). card (set (map Second dyn) - set acc),
                           \<lambda>(dyn, stack, acc). length stack]"
  proof (cases "pushed = []")
    case True
    then show ?thesis using r(1) ne by simp
  next
    case False
    then obtain y where y: "y \<in> set pushed" by (cases pushed) auto
    have "set (map Second dyn) - set acc \<subset> set (map Second dyn) - set all_successors"
      using r y by auto
    then have "card (set (map Second dyn) - set acc)
                 < card (set (map Second dyn) - set all_successors)"
      by (intro psubset_card_mono) simp_all
    then show ?thesis by simp
  qed
qed

declare successors_loop.simps [simp del]

definition calculate_slack_time :: "scheduler \<Rightarrow> task_id \<Rightarrow> slack" where
  "calculate_slack_time s task =
     (let pl = slack_product_line s task in
      if falsy pl then Infinity
      else
        (case map_of (delivery_dates s) (the pl) of
           None \<Rightarrow> Infinity
         | Some delivery_date \<Rightarrow>
             (let latest_finish = delivery_date;
                  dynamic_constraints = fst (build_dynamic_dependencies s);
                  all_successors = successors_loop dynamic_constraints [task] [];
                  total_successor_duration =
                    sum_list (map (\<lambda>succ. task_duration (the (map_of (tasks s) succ)))
                      (filter (dict_has (tasks s)) all_successors));
                  buffer_days = (of_int total_successor_duration :: rat) / (8 * 60);
                  latest_start = of_int latest_finish - (buffer_days + 2) * 1440
              in case map_of (task_schedule s) task of
                   Some a \<Rightarrow> Hours ((latest_start - of_int (start_time a)) / 60)
                 | None \<Rightarrow> Hours 0)))"

text \<open>The loop of \<open>calculate_makespan\<close> over the calendar days from \<open>current\<close> to \<open>end_date\<close>.\<close>

function working_days_loop :: "scheduler \<Rightarrow> int \<Rightarrow> int \<Rightarrow> int \<Rightarrow> int" where
  "working_days_loop s current end_date working_days =
     (if current \<le> end_date then
        (let is_working =
               list_ex (\<lambda>(product, ts). is_working_day s (current * 1440) product) (product_tasks s)
         in working_days_loop s (current + 1) end_date
              (if is_working then working_days + 1 else working_days))
      else working_days)"
  by pat_completeness auto
termination
  by (relation "measure (\<lambda>(s, current, end_date, working_days). nat (end_date + 1 - current))") auto

declare working_days_loop.simps [simp del]

definition calculate_makespan :: "scheduler \<Rightarrow> int" where
  "calculate_makespan s =
     (case task_schedule s of
        [] \<Rightarrow> 0
      | (task, a) # rest \<Rightarrow>
          if length (task_schedule s) < length (tasks s) then 999999
          else
            (let start_t = fold min (map (\<lambda>(task, a). start_time a) rest) (start_time a);
                 end_t = fold max (map (\<lambda>(task, a). end_time a) rest) (end_time a)
             in working_days_loop s (date start_t) (date end_t) 0))"

section \<open>The global priority list and lateness\<close>

text \<open>
  The sort key \<open>(scheduled_start, slack_hours)\<close>: pairs compare by start first, and
  infinity is above every finite slack.
\<close>

definition entry_le :: "priority_entry \<Rightarrow> priority_entry \<Rightarrow> bool" where
  "entry_le x y =
     (scheduled_start x < scheduled_start y
      \<or> (scheduled_start x = scheduled_start y
          \<and> (case (slack_hours x, slack_hours y) of
                (Hours a, Hours b) \<Rightarrow> a \<le> b
              | (Hours a, Infinity) \<Rightarrow> True
              | (Infinity, Hours b) \<Rightarrow> False
              | (Infinity, Infinity) \<Rightarrow> True)))"

text \<open>A stable sort: an entry goes after every entry that is not above it.\<close>

fun insert_entry :: "priority_entry \<Rightarrow> priority_entry list \<Rightarrow> priority_entry list" where
  "insert_entry x [] = [x]"
| "insert_entry x (y # ys) = (if entry_le y x then y # insert_entry x ys else x # y # ys)"

definition sort_entries :: "priority_entry list \<Rightarrow> priority_entry list" where
  "sort_entries xs = fold insert_entry xs []"

fun assign_ranks :: "nat \<Rightarrow> priority_entry list \<Rightarrow> priority_entry list" where
  "assign_ranks i [] = []"
| "assign_ranks i (x # xs) = x\<lparr>global_priority := i\<rparr> # assign_ranks (i + 1) xs"

definition make_entry :: "env \<Rightarrow> scheduler \<Rightarrow> task_id \<times> assignment \<Rightarrow> py_error + priority_entry" where
  "make_entry e s ta =
     (case ta of (task, a) \<Rightarrow>
        (case calculate_task_priority e s task of
           Inl err \<Rightarrow> Inl err
         | Inr score \<Rightarrow>
             Inr \<lparr>entry_task_id = task,
                  entry_task_num = snd (parse_product_task_id (PyStr task)),
                  entry_task_type = task_type a,
                  entry_product_line = product_line a,
                  entry_team = team a,
                  scheduled_start = start_time a,
                  scheduled_end = end_time a,
                  duration_minutes = duration a,
                  entry_mechanics_required = mechanics_required a,
                  slack_hours = calculate_slack_time s task,
                  priority_score = score,
                  entry_shift = shift a,
                  global_priority = 0\<rparr>))"

fun make_entries :: "env \<Rightarrow> scheduler \<Rightarrow> (task_id \<times> assignment) list \<Rightarrow> py_error + priority_entry list" where
  "make_entries e s [] = Inr []"
| "make_entries e s (ta # rest) =
     (case make_entry e s ta of
        Inl err \<Rightarrow> Inl err
      | Inr x \<Rightarrow>
          (case make_entries e s rest of
             Inl err \<Rightarrow> Inl err
           | Inr xs \<Rightarrow> Inr (x # xs)))"

text \<open>
  \<open>generate_global_priority_list\<close>: schedule, build one entry per assignment, sort and
  rank.  The conflict check between the two only prints.
\<close>

definition generate_global_priority_list ::
  "env \<Rightarrow> scheduler \<Rightarrow> bool \<Rightarrow> bool \<Rightarrow> py_error + (priority_entry list \<times> scheduler)" where
  "generate_global_priority_list e s allow_late_delivery silent_mode =
     (case schedule_tasks e s allow_late_delivery silent_mode of
        Inl err \<Rightarrow> Inl err
      | Inr s1 \<Rightarrow>
          (case make_entries e s1 (task_schedule s1) of
             Inl err \<Rightarrow> Inl err
           | Inr priority_data \<Rightarrow>
               (let ranked = assign_ranks 1 (sort_entries priority_data)
                in Inr (ranked, s1\<lparr>global_priority_list := ranked\<rparr>))))"

section \<open>Invariants of a scheduling run\<close>

definition deps_done :: "scheduler \<Rightarrow> locals \<Rightarrow> constraint list \<Rightarrow> task_id \<Rightarrow> bool" where
  "deps_done s st dyn t = (\<forall>d \<in> set (dependencies dyn t). done_task s st d)"

text \<open>
  The ready queue holds each task at most once, only tasks that are neither placed nor
  failed and whose predecessors are all placed or failed; no placed task is failed, and
  every placed task had all its predecessors placed or failed.
\<close>

definition queue_inv :: "scheduler \<Rightarrow> locals \<Rightarrow> constraint list \<Rightarrow> bool" where
  "queue_inv s st dyn =
     (distinct (map snd (ready_tasks st))
      \<and> (\<forall>t \<in> snd ` set (ready_tasks st). \<not> done_task s st t \<and> deps_done s st dyn t)
      \<and> (\<forall>t. dict_has (task_schedule s) t \<longrightarrow> t \<notin> set (failed_tasks st) \<and> deps_done s st dyn t)
      \<and> distinct (map fst (task_schedule s)))"

definition covered :: "(task_id \<times> assignment) list \<Rightarrow> string \<Rightarrow> datetime \<Rightarrow> bool" where
  "covered sch tm t = (\<exists>(task, a) \<in> set sch. team a = tm \<and> start_time a \<le> t \<and> t < end_time a)"

definition capacity_inv :: "scheduler \<Rightarrow> bool" where
  "capacity_inv s =
     (\<forall>tm t. covered (task_schedule s) tm t \<longrightarrow> usage_at (task_schedule s) tm t \<le> capacity_of s tm)"

definition workday_inv :: "scheduler \<Rightarrow> bool" where
  "workday_inv s =
     (\<forall>(task, a) \<in> set (task_schedule s). is_working_day s (start_time a) (product_line a))"

definition precedence_inv :: "scheduler \<Rightarrow> constraint list \<Rightarrow> bool" where
  "precedence_inv s dyn =
     (\<forall>a b aa ab.
        map_of (task_schedule s) a = Some aa \<longrightarrow> map_of (task_schedule s) b = Some ab \<longrightarrow>
        a \<in> set (dependencies dyn b) \<longrightarrow>
        (\<forall>p \<in> set (dependencies dyn b).
           dict_has (task_schedule s) p \<and> is_finish_equals_start dyn p b \<longrightarrow> p = a) \<longrightarrow>
        end_time aa \<le> start_time ab)"

definition run_inv :: "scheduler \<Rightarrow> locals \<Rightarrow> constraint list \<Rightarrow> bool" where
  "run_inv s st dyn = (queue_inv s st dyn \<and> capacity_inv s \<and> workday_inv s \<and> precedence_inv s dyn)"

text \<open>Two scheduler objects that differ at most in the schedule.\<close>

definition same_inputs :: "scheduler \<Rightarrow> scheduler \<Rightarrow> bool" where
  "same_inputs s s' = (s' = s\<lparr>task_schedule := task_schedule s'\<rparr>)"


text \<open>
  Two environments that iterate sets in the same order, have the same recursion limit
  and whose clocks give the same whole number of days to every delivery date.
\<close>

definition same_clock_days :: "env \<Rightarrow> env \<Rightarrow> scheduler \<Rightarrow> bool" where
  "same_clock_days e1 e2 s =
     (set_rank e2 = set_rank e1 \<and> recursion_limit e2 = recursion_limit e1
      \<and> (\<forall>(product, d) \<in> set (delivery_dates s).
            (d - now e2) div 1440 = (d - now e1) div 1440))"

section \<open>Example inputs\<close>

definition example_env :: env where
  "example_env = \<lparr>now = 6120, set_rank = (\<lambda>t. 0), recursion_limit = 1000\<rparr>"

definition production_task :: "int \<Rightarrow> string \<Rightarrow> task_info" where
  "production_task d tm =
     \<lparr>task_duration = d, task_team = tm, task_mechanics_required = 1, task_is_quality = False,
      task_task_type = ''Production'', task_product_line = Some ''Product P''\<rparr>"

text \<open>An object with nothing loaded but the delivery date of one product.\<close>

definition empty_scheduler :: scheduler where
  "empty_scheduler =
     \<lparr>late_part_delay_days = 1, tasks = [], precedence_constraints = [],
      late_part_constraints = [], rework_constraints = [], late_part_tasks = [],
      rework_tasks = [], on_dock_dates = [], task_to_product = [], quality_inspections = [],
      quality_requirements = [], team_shifts = [], team_capacity = [],
      quality_team_shifts = [], quality_team_capacity = [],
      delivery_dates = [(''Product P'', 20000)], holidays = [], product_tasks = [],
      task_schedule = [], dynamic_constraints_cache = None,
      original_team_capacity = [], original_quality_capacity = [],
      global_priority_list = []\<rparr>"

text \<open>Two two-minute tasks of one product in a chain, on a team of one in the first shift.\<close>

definition chain_example :: scheduler where
  "chain_example =
     empty_scheduler
       \<lparr>tasks := [(''P_1'', production_task 2 ''M''), (''P_2'', production_task 2 ''M'')],
        precedence_constraints := [mk_constraint ''P_1'' ''P_2'' ''Finish <= Start''],
        team_shifts := [(''M'', [''1st''])], team_capacity := [(''M'', 1)],
        product_tasks := [(''Product P'', [''P_1'', ''P_2''])],
        original_team_capacity := [(''M'', 1)]\<rparr>"


text \<open>One two-hour task on a team that works the third shift only.\<close>

definition night_example :: scheduler where
  "night_example =
     empty_scheduler
       \<lparr>tasks := [(''P_1'', production_task 120 ''M'')],
        team_shifts := [(''M'', [''3rd''])], team_capacity := [(''M'', 1)],
        product_tasks := [(''Product P'', [''P_1''])],
        original_team_capacity := [(''M'', 1)]\<rparr>"

text \<open>One task whose team has no working calendar, so no minute is ever in a shift.\<close>

definition no_shift_example :: scheduler where
  "no_shift_example =
     empty_scheduler
       \<lparr>tasks := [(''P_1'', production_task 2 ''Z'')],
        team_capacity := [(''Z'', 1)],
        product_tasks := [(''Product P'', [''P_1''])],
        original_team_capacity := [(''Z'', 1)]\<rparr>"

text \<open>The same object once a run has cleared the schedule and filled the dependency cache.\<close>

definition no_shift_loaded :: scheduler where
  "no_shift_loaded = no_shift_example\<lparr>task_schedule := [], dynamic_constraints_cache := Some []\<rparr>"



text \<open>Two tasks that wait for each other.\<close>

definition cyclic_example :: scheduler where
  "cyclic_example =
     empty_scheduler
       \<lparr>tasks := [(''P_1'', production_task 2 ''M''), (''P_2'', production_task 2 ''M'')],
        precedence_constraints :=
          [mk_constraint ''P_1'' ''P_2'' ''Finish <= Start'',
           mk_constraint ''P_2'' ''P_1'' ''Finish <= Start''],
        team_shifts := [(''M'', [''1st''])], team_capacity := [(''M'', 1)],
        product_tasks := [(''Product P'', [''P_1'', ''P_2''])],
        original_team_capacity := [(''M'', 1)]\<rparr>"

definition production_assignment :: "datetime \<Rightarrow> int \<Rightarrow> string \<Rightarrow> assignment" where
  "production_assignment t d tm =
     \<lparr>start_time = t, end_time = t + d, team = tm, product_line = ''Product P'',
      duration = d, mechanics_required = 1, is_quality = False,
      task_type = ''Production'', shift = ''1st''\<rparr>"

text \<open>The chain example with both tasks placed, and with the first task placed only.\<close>

definition chain_scheduled :: scheduler where
  "chain_scheduled =
     chain_example
       \<lparr>task_schedule := [(''P_1'', production_assignment 6120 2 ''M''),
                          (''P_2'', production_assignment 6122 2 ''M'')]\<rparr>"

definition chain_half_scheduled :: scheduler where
  "chain_half_scheduled =
     chain_example\<lparr>task_schedule := [(''P_1'', production_assignment 6120 2 ''M'')]\<rparr>"

text \<open>
  Two products with one task each on the same team of one; the delivery of product B is
  twelve hours after that of product A.
\<close>

definition clock_example :: scheduler where
  "clock_example =
     empty_scheduler
       \<lparr>tasks := [(''A_1'', (production_task 2 ''M'')\<lparr>task_product_line := Some ''Product A''\<rparr>),
                  (''B_1'', (production_task 2 ''M'')\<lparr>task_product_line := Some ''Product B''\<rparr>)],
        team_shifts := [(''M'', [''1st''])], team_capacity := [(''M'', 1)],
        delivery_dates := [(''Product A'', 14400), (''Product B'', 15120)],
        product_tasks := [(''Product A'', [''A_1'']), (''Product B'', [''B_1''])],
        original_team_capacity := [(''M'', 1)]\<rparr>"

definition evening_env :: env where
  "evening_env = example_env\<lparr>now := 6840\<rparr>"

definition next_minute_env :: env where
  "next_minute_env = example_env\<lparr>now := 6121\<rparr>"

section \<open>Identifier round trip\<close>




























section \<open>The capacity search\<close>

lemma capacity_loop_iff:
  "capacity_loop sch tm cap needed current end_t
     \<longleftrightarrow> (\<forall>m. current \<le> m \<and> m < end_t \<longrightarrow> usage_at sch tm m + needed \<le> cap)"
proof (induction sch tm cap needed current end_t rule: capacity_loop.induct)
  case (1 sch tm cap needed current end_t)
  show ?case
  proof (cases "current < end_t")
    case False
    then show ?thesis by (subst capacity_loop.simps) auto
  next
    case True
    show ?thesis
    proof (cases "usage_at sch tm current + needed > cap")
      case over: True
      then show ?thesis using True by (subst capacity_loop.simps) force
    next
      case ok: False
      have "capacity_loop sch tm cap needed current end_t
              = capacity_loop sch tm cap needed (current + 1) end_t"
        using True ok by (subst capacity_loop.simps) simp
      also have "\<dots> \<longleftrightarrow> (\<forall>m. current + 1 \<le> m \<and> m < end_t \<longrightarrow> usage_at sch tm m + needed \<le> cap)"
        using 1 True ok by simp
      also have "\<dots> \<longleftrightarrow> (\<forall>m. current \<le> m \<and> m < end_t \<longrightarrow> usage_at sch tm m + needed \<le> cap)"
      proof
        assume h: "\<forall>m. current + 1 \<le> m \<and> m < end_t \<longrightarrow> usage_at sch tm m + needed \<le> cap"
        show "\<forall>m. current \<le> m \<and> m < end_t \<longrightarrow> usage_at sch tm m + needed \<le> cap"
        proof (intro allI impI)
          fix m assume m: "current \<le> m \<and> m < end_t"
          show "usage_at sch tm m + needed \<le> cap"
          proof (cases "m = current")
            case True
            then show ?thesis using ok by simp
          next
            case False
            then have "current + 1 \<le> m" using m by simp
            then show ?thesis using h m by blast
          qed
        qed
      next
        assume "\<forall>m. current \<le> m \<and> m < end_t \<longrightarrow> usage_at sch tm m + needed \<le> cap"
        then show "\<forall>m. current + 1 \<le> m \<and> m < end_t \<longrightarrow> usage_at sch tm m + needed \<le> cap"
          by simp
      qed
      finally show ?thesis .
    qed
  qed
qed

lemma replace_time_next_day: "t < replace_time t 6 0 + 1440"
proof -
  have "t mod 1440 < 1440" by simp
  moreover have "t = (t div 1440) * 1440 + t mod 1440" by simp
  ultimately show ?thesis unfolding replace_time_def by linarith
qed

lemma next_shift_start_later: "t < next_shift_start t"
proof -
  have d: "t = (t div 1440) * 1440 + t mod 1440" by simp
  have b: "0 \<le> t mod 1440" "t mod 1440 < 1440" by simp_all
  have 1: "t mod 1440 < 360 \<Longrightarrow> t < t div 1440 * 1440 + 360" using d by linarith
  have 2: "t mod 1440 < 870 \<Longrightarrow> t < t div 1440 * 1440 + 870" using d by linarith
  have 3: "t mod 1440 < 1380 \<Longrightarrow> t < t div 1440 * 1440 + 1380" using d by linarith
  have 4: "t < t div 1440 * 1440 + 360 + 1440" using d b by linarith
  show ?thesis
    unfolding next_shift_start_def Let_def replace_time_def
    using 1 2 3 4 by (simp add: add.commute)
qed

lemma working_time_loop_result:
  "working_time_loop k s t0 pl tm needed dur q = Inr (t, sh)
     \<Longrightarrow> t0 \<le> t \<and> is_working_day s t pl
         \<and> check_team_capacity_at_time s tm t (t + dur) needed
         \<and> available_shift s tm q (t mod 1440) = Some sh"
proof (induction k arbitrary: t0)
  case 0
  then show ?case by simp
next
  case (Suc k)
  show ?case
  proof (cases "is_working_day s t0 pl")
    case False
    then have "working_time_loop k s (replace_time t0 6 0 + 1440) pl tm needed dur q = Inr (t, sh)"
      using Suc.prems by simp
    from Suc.IH[OF this] replace_time_next_day[of t0] show ?thesis by simp
  next
    case wd: True
    show ?thesis
    proof (cases "available_shift s tm q (t0 mod 1440)")
      case None
      then have "working_time_loop k s (next_shift_start t0) pl tm needed dur q = Inr (t, sh)"
        using Suc.prems wd by simp
      from Suc.IH[OF this] next_shift_start_later[of t0] show ?thesis by simp
    next
      case (Some sh0)
      show ?thesis
      proof (cases "sh0 \<noteq> [] \<and> check_team_capacity_at_time s tm t0 (t0 + dur) needed")
        case True
        then have "t = t0" "sh = sh0" using Suc.prems wd Some by simp_all
        then show ?thesis using True wd Some by simp
      next
        case False
        then have "working_time_loop k s (t0 + 1) pl tm needed dur q = Inr (t, sh)
                 \<or> working_time_loop k s (next_shift_start t0) pl tm needed dur q = Inr (t, sh)"
          using Suc.prems wd Some by (auto split: if_splits)
        then show ?thesis
          using Suc.IH[of "t0 + 1"] Suc.IH[of "next_shift_start t0"] next_shift_start_later[of t0]
          by auto
      qed
    qed
  qed
qed

lemma try_quality_shift_result:
  assumes "try_quality_shift s earliest pl needed dur try_shift acc = Some (t, tm, sh)"
    and "\<And>t tm sh. acc = Some (t, tm, sh) \<Longrightarrow> P t tm"
    and "\<And>t tm sh. get_next_working_time_with_capacity s earliest pl tm needed dur True = Inr (t, sh)
            \<Longrightarrow> P t tm"
  shows "P t tm"
  using assms unfolding try_quality_shift_def
  by (auto split: option.splits if_splits sum.splits prod.splits)

lemma find_slot_result:
  assumes "find_slot s earliest pl ti = Some (t, tm, sh)"
  shows "earliest \<le> t \<and> is_working_day s t pl
         \<and> check_team_capacity_at_time s tm t (t + task_duration ti) (task_mechanics_required ti)"
proof -
  let ?P = "\<lambda>t tm. earliest \<le> t \<and> is_working_day s t pl
         \<and> check_team_capacity_at_time s tm t (t + task_duration ti) (task_mechanics_required ti)"
  have g: "\<And>t tm sh q. get_next_working_time_with_capacity s earliest pl tm
             (task_mechanics_required ti) (task_duration ti) q = Inr (t, sh) \<Longrightarrow> ?P t tm"
    unfolding get_next_working_time_with_capacity_def
    using working_time_loop_result by blast
  show ?thesis
  proof (cases "task_is_quality ti")
    case False
    then show ?thesis using assms g
      by (auto simp: find_slot_def split: sum.splits)
  next
    case True
    let ?f = "try_quality_shift s earliest pl (task_mechanics_required ti) (task_duration ti)"
    have step: "\<And>sh acc. (\<forall>t tm sh. acc = Some (t, tm, sh) \<longrightarrow> ?P t tm)
        \<Longrightarrow> (\<forall>t tm sh'. ?f sh acc = Some (t, tm, sh') \<longrightarrow> ?P t tm)"
    proof (intro allI impI)
      fix sh acc t tm sh'
      assume a: "\<forall>t tm sh. acc = Some (t, tm, sh) \<longrightarrow> ?P t tm" and r: "?f sh acc = Some (t, tm, sh')"
      show "?P t tm"
        by (rule try_quality_shift_result[OF r]) (use a g in blast)+
    qed
    have "\<forall>t tm sh'. fold ?f [''1st'', ''2nd'', ''3rd''] None = Some (t, tm, sh') \<longrightarrow> ?P t tm"
      unfolding fold_simps id_o o_id comp_def
      by (intro step; simp)
    then show ?thesis using assms True by (simp only: find_slot_def if_True)
  qed
qed

section \<open>Queue, dictionary and usage lemmas\<close>

lemma set_set_iter [simp]: "set (set_iter e xs) = set xs"
  by (simp add: set_iter_def)

lemma distinct_set_iter [simp]: "distinct (set_iter e xs)"
  by (simp add: set_iter_def)

lemma dependents_iff: "d \<in> set (dependents dyn t) \<longleftrightarrow> t \<in> set (dependencies dyn d)"
  by (auto simp: dependents_def dependencies_def)

lemma push_task_Inr:
  "push_task e s t acc = Inr st' \<Longrightarrow>
     \<exists>st p. acc = Inr st \<and> st' = st\<lparr>ready_tasks := ready_tasks st @ [(p, t)]\<rparr>"
  by (auto simp: push_task_def heappush_def split: sum.splits)

lemma fold_push_Inl:
  "fold (\<lambda>t acc. if C t then push_task e s t acc else acc) xs (Inl err) = Inl err"
  by (induction xs) (auto simp: push_task_def)

lemma fold_push_Inr:
  "fold (\<lambda>t acc. if C t then push_task e s t acc else acc) xs (Inr st) = Inr st' \<Longrightarrow>
     \<exists>ps. st' = st\<lparr>ready_tasks := ready_tasks st @ ps\<rparr> \<and> map snd ps = filter C xs"
proof (induction xs arbitrary: st)
  case Nil
  then show ?case by simp
next
  case (Cons x xs)
  show ?case
  proof (cases "C x")
    case False
    then show ?thesis using Cons by simp
  next
    case True
    show ?thesis
    proof (cases "push_task e s x (Inr st)")
      case (Inl err)
      then show ?thesis using Cons.prems True by (simp add: fold_push_Inl)
    next
      case (Inr st1)
      then obtain p where st1: "st1 = st\<lparr>ready_tasks := ready_tasks st @ [(p, x)]\<rparr>"
        using push_task_Inr by blast
      have "fold (\<lambda>t acc. if C t then push_task e s t acc else acc) xs (Inr st1) = Inr st'"
        using Cons.prems True Inr by simp
      from Cons.IH[OF this] obtain ps where
        ps: "st' = st1\<lparr>ready_tasks := ready_tasks st1 @ ps\<rparr>" "map snd ps = filter C xs"
        by blast
      have "st' = st\<lparr>ready_tasks := ready_tasks st @ ((p, x) # ps)\<rparr>"
        using ps(1) st1 by simp
      moreover have "map snd ((p, x) # ps) = filter C (x # xs)" using ps(2) True by simp
      ultimately show ?thesis by blast
    qed
  qed
qed

lemma heap_min_in: "h \<noteq> [] \<Longrightarrow> heap_min h \<in> set h"
  by (induction h rule: heap_min.induct) (auto simp: Let_def)

lemma distinct_map_remove1:
  "distinct (map f xs) \<Longrightarrow> x \<in> set xs \<Longrightarrow>
     distinct (map f (remove1 x xs)) \<and> f x \<notin> f ` set (remove1 x xs)
       \<and> f ` set (remove1 x xs) \<subseteq> f ` set xs"
proof (induction xs)
  case Nil
  then show ?case by simp
next
  case (Cons y ys)
  show ?case
  proof (cases "x = y")
    case True
    then show ?thesis using Cons.prems by auto
  next
    case False
    then have "x \<in> set ys" using Cons.prems by simp
    moreover have "distinct (map f ys)" using Cons.prems by simp
    ultimately have ih: "distinct (map f (remove1 x ys))" "f x \<notin> f ` set (remove1 x ys)"
      "f ` set (remove1 x ys) \<subseteq> f ` set ys"
      using Cons.IH by auto
    have "f y \<notin> f ` set ys" using Cons.prems by simp
    then have "f y \<notin> f ` set (remove1 x ys)" using ih(3) by blast
    moreover have "f x \<noteq> f y" using \<open>f y \<notin> f ` set ys\<close> \<open>x \<in> set ys\<close> by (metis imageI)
    ultimately show ?thesis using False ih(1,2,3) by (simp add: subset_iff image_iff)
  qed
qed

lemma update_fresh: "k \<notin> fst ` set al \<Longrightarrow> AList.update k v al = al @ [(k, v)]"
  by (induction al) auto

lemma dict_has_iff: "dict_has d k \<longleftrightarrow> k \<in> fst ` set d"
  by (simp add: dict_has_def map_of_eq_None_iff)

lemma usage_at_append:
  "usage_at (sch @ [(k, a)]) tm t =
     usage_at sch tm t + (if team a = tm \<and> start_time a \<le> t \<and> t < end_time a then mechanics_required a else 0)"
  by (simp add: usage_at_def)

lemma covered_append:
  "covered (sch @ [(k, a)]) tm t \<longleftrightarrow>
     covered sch tm t \<or> (team a = tm \<and> start_time a \<le> t \<and> t < end_time a)"
  by (auto simp: covered_def)

section \<open>The earliest start\<close>

lemma dep_step_self:
  "map_of (task_schedule s) a = Some aa \<Longrightarrow> end_time aa \<le> dep_step s dyn task a e0"
  unfolding dep_step_def Let_def by simp

lemma dep_step_other:
  assumes "\<not> (dict_has (task_schedule s) d \<and> is_finish_equals_start dyn d task)"
  shows "e0 \<le> dep_step s dyn task d e0"
proof (cases "map_of (task_schedule s) d")
  case None
  then show ?thesis unfolding dep_step_def by simp
next
  case (Some ad)
  then have "dict_has (task_schedule s) d" unfolding dict_has_def by simp
  with assms have "\<not> is_finish_equals_start dyn d task" by blast
  then show ?thesis using Some unfolding dep_step_def Let_def by simp
qed

lemma fold_dep_step_ge:
  assumes a: "map_of (task_schedule s) a = Some aa"
  shows "(\<forall>p \<in> set ds. dict_has (task_schedule s) p \<and> is_finish_equals_start dyn p task \<longrightarrow> p = a)
     \<Longrightarrow> end_time aa \<le> e0 \<or> a \<in> set ds
     \<Longrightarrow> end_time aa \<le> fold (dep_step s dyn task) ds e0"
proof (induction ds arbitrary: e0)
  case Nil
  then show ?case by simp
next
  case (Cons d ds)
  have step: "end_time aa \<le> dep_step s dyn task d e0 \<or> a \<in> set ds"
  proof (cases "d = a")
    case True
    then show ?thesis using dep_step_self[OF a] by blast
  next
    case False
    have "\<not> (dict_has (task_schedule s) d \<and> is_finish_equals_start dyn d task)"
    proof
      assume h: "dict_has (task_schedule s) d \<and> is_finish_equals_start dyn d task"
      have "d \<in> set (d # ds)" by simp
      with Cons.prems(1) h have "d = a" by blast
      with False show False by blast
    qed
    then have ge: "e0 \<le> dep_step s dyn task d e0" by (rule dep_step_other)
    from Cons.prems(2) False have "end_time aa \<le> e0 \<or> a \<in> set ds" by simp
    with ge show ?thesis by linarith
  qed
  have only: "\<forall>p \<in> set ds. dict_has (task_schedule s) p \<and> is_finish_equals_start dyn p task \<longrightarrow> p = a"
    using Cons.prems(1) by simp
  have "end_time aa \<le> fold (dep_step s dyn task) ds (dep_step s dyn task d e0)"
    by (rule Cons.IH[OF only step])
  then show ?case by simp
qed

lemma earliest_start_of_ge:
  assumes "map_of (task_schedule s) a = Some aa"
    and "a \<in> set (dependencies dyn task)"
    and "\<forall>p \<in> set (dependencies dyn task).
           dict_has (task_schedule s) p \<and> is_finish_equals_start dyn p task \<longrightarrow> p = a"
  shows "end_time aa \<le> earliest_start_of e s dyn task"
proof -
  have 1: "\<forall>p \<in> set (set_iter e (dependencies dyn task)).
           dict_has (task_schedule s) p \<and> is_finish_equals_start dyn p task \<longrightarrow> p = a"
    using assms(3) by simp
  have 2: "\<And>e0. end_time aa \<le> e0 \<or> a \<in> set (set_iter e (dependencies dyn task))"
    using assms(2) by simp
  show ?thesis
    unfolding earliest_start_of_def Let_def
    by (rule fold_dep_step_ge[OF assms(1) 1 2])
qed

section \<open>Preservation of the queue invariant\<close>

lemma place_schedule:
  "task_schedule (place s task ti pl (t, tm, sh)) =
     AList.update task
       \<lparr>start_time = t, end_time = t + task_duration ti, team = tm, product_line = pl,
        duration = task_duration ti, mechanics_required = task_mechanics_required ti,
        is_quality = task_is_quality ti, task_type = task_task_type ti, shift = sh\<rparr>
       (task_schedule s)"
  by (simp add: place_def)

lemma place_same_inputs: "same_inputs s (place s task ti pl slot)"
  by (cases slot) (simp add: place_def same_inputs_def)

lemma same_inputs_refl: "same_inputs s s"
  by (simp add: same_inputs_def)

lemma same_inputs_trans: "same_inputs s s' \<Longrightarrow> same_inputs s' s'' \<Longrightarrow> same_inputs s s''"
  unfolding same_inputs_def
  by (metis scheduler.surjective scheduler.update_convs(19) scheduler.select_convs)

lemma same_inputs_fields:
  assumes "same_inputs s s'"
  shows "tasks s' = tasks s" "capacity_of s' = capacity_of s"
    "is_working_day s' = is_working_day s"
proof -
  have e: "s' = s\<lparr>task_schedule := task_schedule s'\<rparr>" using assms by (simp add: same_inputs_def)
  show "tasks s' = tasks s" by (subst e) simp
  have "team_capacity s' = team_capacity s" "quality_team_capacity s' = quality_team_capacity s"
    "holidays s' = holidays s"
    by (subst e, simp)+
  then show "capacity_of s' = capacity_of s" "is_working_day s' = is_working_day s"
    by (simp_all add: capacity_of_def is_working_day_def fun_eq_iff Let_def cong: if_cong)
qed

lemma dict_has_update: "dict_has (AList.update k v al) x \<longleftrightarrow> x = k \<or> dict_has al x"
  by (simp add: dict_has_def update_conv')

lemma done_task_place:
  "done_task (place s task ti pl slot) st d \<longleftrightarrow> d = task \<or> done_task s st d"
  by (cases slot) (simp add: done_task_def place_def dict_has_update)

lemma queue_inv_retry [simp]:
  "queue_inv s (st\<lparr>task_retry_counts := f\<rparr>) dyn = queue_inv s st dyn"
  by (simp add: queue_inv_def done_task_def deps_done_def)

lemma queue_inv_count [simp]:
  "queue_inv s (st\<lparr>scheduled_count := n\<rparr>) dyn = queue_inv s st dyn"
  by (simp add: queue_inv_def done_task_def deps_done_def)

lemma queue_inv_push:
  assumes q: "queue_inv s st dyn"
    and d: "distinct (map snd ps)"
    and p: "\<forall>t \<in> snd ` set ps. \<not> done_task s st t \<and> deps_done s st dyn t
              \<and> t \<notin> snd ` set (ready_tasks st)"
  shows "queue_inv s (st\<lparr>ready_tasks := ready_tasks st @ ps\<rparr>) dyn"
proof -
  have "snd ` set (ready_tasks st) \<inter> snd ` set ps = {}" using p by blast
  then have 1: "distinct (map snd (ready_tasks st @ ps))"
    using q d by (simp add: queue_inv_def)
  have 2: "\<forall>t \<in> snd ` set (ready_tasks st @ ps). \<not> done_task s st t \<and> deps_done s st dyn t"
    using q p by (auto simp: queue_inv_def)
  show ?thesis
    using q 1 2 by (simp add: queue_inv_def done_task_def deps_done_def)
qed

lemma queue_inv_pop:
  assumes q: "queue_inv s st dyn" and x: "x \<in> set (ready_tasks st)"
  shows "queue_inv s (st\<lparr>ready_tasks := remove1 x (ready_tasks st)\<rparr>) dyn"
    and "snd x \<notin> snd ` set (remove1 x (ready_tasks st))"
    and "\<not> done_task s st (snd x)" and "deps_done s st dyn (snd x)"
proof -
  have dm: "distinct (map snd (ready_tasks st))" using q by (simp add: queue_inv_def)
  from distinct_map_remove1[OF dm x]
  have r: "distinct (map snd (remove1 x (ready_tasks st)))"
    "snd x \<notin> snd ` set (remove1 x (ready_tasks st))"
    "snd ` set (remove1 x (ready_tasks st)) \<subseteq> snd ` set (ready_tasks st)" by auto
  show "snd x \<notin> snd ` set (remove1 x (ready_tasks st))" by (rule r(2))
  show "\<not> done_task s st (snd x)" "deps_done s st dyn (snd x)"
    using q x by (auto simp: queue_inv_def)
  have "\<forall>t \<in> snd ` set (remove1 x (ready_tasks st)). \<not> done_task s st t \<and> deps_done s st dyn t"
    using q r(3) unfolding queue_inv_def by blast
  then show "queue_inv s (st\<lparr>ready_tasks := remove1 x (ready_tasks st)\<rparr>) dyn"
    using q r(1) by (simp add: queue_inv_def done_task_def deps_done_def)
qed

lemma queue_inv_fail:
  assumes q: "queue_inv s st dyn" and nd: "\<not> done_task s st t"
    and nh: "t \<notin> snd ` set (ready_tasks st)"
  shows "queue_inv s (st\<lparr>failed_tasks := set_add t (failed_tasks st)\<rparr>) dyn"
proof -
  let ?st = "st\<lparr>failed_tasks := set_add t (failed_tasks st)\<rparr>"
  have f: "set (failed_tasks ?st) = insert t (set (failed_tasks st))"
    by (auto simp: set_add_def)
  have dn: "\<And>d. done_task s ?st d \<longleftrightarrow> d = t \<or> done_task s st d"
    using f by (auto simp: done_task_def)
  have dd: "\<And>d. deps_done s st dyn d \<Longrightarrow> deps_done s ?st dyn d"
    using dn by (simp add: deps_done_def)
  have 1: "distinct (map snd (ready_tasks ?st))" using q by (simp add: queue_inv_def)
  have 2: "\<forall>u \<in> snd ` set (ready_tasks ?st). \<not> done_task s ?st u \<and> deps_done s ?st dyn u"
  proof
    fix u assume u: "u \<in> snd ` set (ready_tasks ?st)"
    then have u': "u \<in> snd ` set (ready_tasks st)" by simp
    then have "u \<noteq> t" using nh by blast
    moreover have "\<not> done_task s st u" "deps_done s st dyn u"
      using q u' unfolding queue_inv_def by blast+
    ultimately show "\<not> done_task s ?st u \<and> deps_done s ?st dyn u" using dn dd by blast
  qed
  have 3: "\<forall>u. dict_has (task_schedule s) u \<longrightarrow> u \<notin> set (failed_tasks ?st) \<and> deps_done s ?st dyn u"
  proof (intro allI impI)
    fix u assume u: "dict_has (task_schedule s) u"
    then have "u \<noteq> t" using nd by (auto simp: done_task_def)
    moreover have "u \<notin> set (failed_tasks st)" "deps_done s st dyn u"
      using q u unfolding queue_inv_def by blast+
    ultimately show "u \<notin> set (failed_tasks ?st) \<and> deps_done s ?st dyn u" using f dd by simp
  qed
  have 4: "distinct (map fst (task_schedule s))" using q by (simp add: queue_inv_def)
  show ?thesis unfolding queue_inv_def using 1 2 3 4 by blast
qed

lemma queue_inv_place:
  assumes q: "queue_inv s st dyn" and nd: "\<not> done_task s st t" and dd: "deps_done s st dyn t"
    and nh: "t \<notin> snd ` set (ready_tasks st)"
  shows "queue_inv (place s t ti pl slot) st dyn"
proof -
  let ?s = "place s t ti pl slot"
  have dn: "\<And>d. done_task ?s st d \<longleftrightarrow> d = t \<or> done_task s st d" by (rule done_task_place)
  have mono: "\<And>d. deps_done s st dyn d \<Longrightarrow> deps_done ?s st dyn d"
    using dn by (simp add: deps_done_def)
  have has: "\<And>u. dict_has (task_schedule ?s) u \<longleftrightarrow> u = t \<or> dict_has (task_schedule s) u"
    by (cases slot) (simp add: place_def dict_has_update)
  have 1: "distinct (map snd (ready_tasks st))" using q by (simp add: queue_inv_def)
  have 2: "\<forall>u \<in> snd ` set (ready_tasks st). \<not> done_task ?s st u \<and> deps_done ?s st dyn u"
  proof
    fix u assume u: "u \<in> snd ` set (ready_tasks st)"
    then have "u \<noteq> t" using nh by blast
    moreover have "\<not> done_task s st u" "deps_done s st dyn u"
      using q u unfolding queue_inv_def by blast+
    ultimately show "\<not> done_task ?s st u \<and> deps_done ?s st dyn u" using dn mono by blast
  qed
  have 3: "\<forall>u. dict_has (task_schedule ?s) u \<longrightarrow> u \<notin> set (failed_tasks st) \<and> deps_done ?s st dyn u"
  proof (intro allI impI)
    fix u assume u: "dict_has (task_schedule ?s) u"
    show "u \<notin> set (failed_tasks st) \<and> deps_done ?s st dyn u"
    proof (cases "u = t")
      case True
      then show ?thesis using nd dd mono by (auto simp: done_task_def)
    next
      case False
      then have "dict_has (task_schedule s) u" using u has by blast
      then show ?thesis using q mono unfolding queue_inv_def by blast
    qed
  qed
  have 4: "distinct (map fst (task_schedule ?s))"
    using q by (cases slot) (simp add: place_def queue_inv_def distinct_update)
  show ?thesis unfolding queue_inv_def using 1 2 3 4 by blast
qed

section \<open>Placing a task preserves the schedule invariants\<close>

lemma place_fresh:
  assumes "\<not> dict_has (task_schedule s) task"
  shows "task_schedule (place s task ti pl (t, tm, sh)) =
     task_schedule s @ [(task,
       \<lparr>start_time = t, end_time = t + task_duration ti, team = tm, product_line = pl,
        duration = task_duration ti, mechanics_required = task_mechanics_required ti,
        is_quality = task_is_quality ti, task_type = task_task_type ti, shift = sh\<rparr>)]"
  using assms by (simp add: place_schedule update_fresh dict_has_iff)

lemma capacity_inv_place:
  assumes inv: "capacity_inv s" and fresh: "\<not> dict_has (task_schedule s) task"
    and chk: "check_team_capacity_at_time s tm t (t + task_duration ti) (task_mechanics_required ti)"
  shows "capacity_inv (place s task ti pl (t, tm, sh))"
proof -
  let ?s = "place s task ti pl (t, tm, sh)"
  have cap: "capacity_of ?s = capacity_of s"
    using same_inputs_fields(2)[OF place_same_inputs] .
  have room: "\<forall>m. t \<le> m \<and> m < t + task_duration ti \<longrightarrow>
      usage_at (task_schedule s) tm m + task_mechanics_required ti \<le> capacity_of s tm"
    using chk by (simp add: check_team_capacity_at_time_def capacity_loop_iff)
  show ?thesis
    unfolding capacity_inv_def cap place_fresh[OF fresh]
  proof (intro allI impI)
    fix tm' m
    assume c: "covered (task_schedule s @ [(task,
       \<lparr>start_time = t, end_time = t + task_duration ti, team = tm, product_line = pl,
        duration = task_duration ti, mechanics_required = task_mechanics_required ti,
        is_quality = task_is_quality ti, task_type = task_task_type ti, shift = sh\<rparr>)]) tm' m"
    show "usage_at (task_schedule s @ [(task,
       \<lparr>start_time = t, end_time = t + task_duration ti, team = tm, product_line = pl,
        duration = task_duration ti, mechanics_required = task_mechanics_required ti,
        is_quality = task_is_quality ti, task_type = task_task_type ti, shift = sh\<rparr>)]) tm' m
        \<le> capacity_of s tm'"
    proof (cases "tm = tm' \<and> t \<le> m \<and> m < t + task_duration ti")
      case True
      then show ?thesis using room by (simp add: usage_at_append)
    next
      case False
      then have "covered (task_schedule s) tm' m" using c by (auto simp: covered_append)
      then have "usage_at (task_schedule s) tm' m \<le> capacity_of s tm'"
        using inv by (simp add: capacity_inv_def)
      then show ?thesis using False by (auto simp: usage_at_append)
    qed
  qed
qed

lemma workday_inv_place:
  assumes inv: "workday_inv s" and fresh: "\<not> dict_has (task_schedule s) task"
    and wd: "is_working_day s t pl"
  shows "workday_inv (place s task ti pl (t, tm, sh))"
proof -
  have w: "is_working_day (place s task ti pl (t, tm, sh)) = is_working_day s"
    using same_inputs_fields(3)[OF place_same_inputs] .
  show ?thesis
    unfolding workday_inv_def w place_fresh[OF fresh]
    using inv wd by (auto simp: workday_inv_def)
qed

lemma precedence_inv_place:
  assumes inv: "precedence_inv s dyn" and q: "queue_inv s st dyn"
    and nd: "\<not> done_task s st task" and dd: "deps_done s st dyn task"
    and early: "earliest_start_of e s dyn task \<le> t"
  shows "precedence_inv (place s task ti pl (t, tm, sh)) dyn"
proof -
  let ?s = "place s task ti pl (t, tm, sh)"
  let ?en = "\<lparr>start_time = t, end_time = t + task_duration ti, team = tm, product_line = pl,
        duration = task_duration ti, mechanics_required = task_mechanics_required ti,
        is_quality = task_is_quality ti, task_type = task_task_type ti, shift = sh\<rparr>"
  have m: "map_of (task_schedule ?s) = (map_of (task_schedule s))(task \<mapsto> ?en)"
    by (simp add: place_schedule update_conv')
  have has: "\<And>u. dict_has (task_schedule s) u \<Longrightarrow> dict_has (task_schedule ?s) u"
    by (simp add: place_schedule dict_has_update)
  have self: "task \<notin> set (dependencies dyn task)"
    using nd dd by (auto simp: deps_done_def)
  show ?thesis
    unfolding precedence_inv_def
  proof (intro allI impI)
    fix a b aa ab
    assume a: "map_of (task_schedule ?s) a = Some aa"
      and b: "map_of (task_schedule ?s) b = Some ab"
      and dep: "a \<in> set (dependencies dyn b)"
      and only: "\<forall>p \<in> set (dependencies dyn b).
           dict_has (task_schedule ?s) p \<and> is_finish_equals_start dyn p b \<longrightarrow> p = a"
    have only': "\<forall>p \<in> set (dependencies dyn b).
           dict_has (task_schedule s) p \<and> is_finish_equals_start dyn p b \<longrightarrow> p = a"
      using only has by blast
    show "end_time aa \<le> start_time ab"
    proof (cases "b = task")
      case True
      then have ab: "ab = ?en" using b m by simp
      have "a \<noteq> task" using dep self True by blast
      then have a': "map_of (task_schedule s) a = Some aa" using a m by simp
      have "end_time aa \<le> earliest_start_of e s dyn task"
        using earliest_start_of_ge[OF a'] dep only' True by blast
      then show ?thesis using early ab by simp
    next
      case False
      then have b': "map_of (task_schedule s) b = Some ab" using b m by simp
      show ?thesis
      proof (cases "a = task")
        case True
        have "dict_has (task_schedule s) b" using b' by (simp add: dict_has_def)
        then have "deps_done s st dyn b" using q unfolding queue_inv_def by blast
        then have "done_task s st task" using dep True by (auto simp: deps_done_def)
        then show ?thesis using nd by blast
      next
        case False
        then have a': "map_of (task_schedule s) a = Some aa" using a m by simp
        show ?thesis using inv a' b' dep only' unfolding precedence_inv_def by blast
      qed
    qed
  qed
qed

section \<open>Queue updates preserve the queue invariant\<close>

lemma run_inv_ready:
  "run_inv s (st\<lparr>ready_tasks := h\<rparr>) dyn \<longleftrightarrow>
     queue_inv s (st\<lparr>ready_tasks := h\<rparr>) dyn \<and> capacity_inv s \<and> workday_inv s \<and> precedence_inv s dyn"
  by (simp add: run_inv_def)

lemma list_all_done_iff:
  "list_all (done_task s st) (set_iter e (dependencies dyn t)) \<longleftrightarrow> deps_done s st dyn t"
  by (simp add: list_all_iff deps_done_def)

lemma refill_inv:
  assumes q: "queue_inv s st dyn" and empty: "ready_tasks st = []"
    and r: "refill e s dyn st = Inr st'"
  shows "queue_inv s st' dyn \<and> failed_tasks st' = failed_tasks st
         \<and> scheduled_count st' = scheduled_count st \<and> task_retry_counts st' = task_retry_counts st"
proof -
  let ?xs = "filter (\<lambda>t. \<not> dict_has (task_schedule s) t \<and> t \<notin> set (failed_tasks st))
                          (set_iter e (map fst (tasks s)))"
  let ?C = "\<lambda>task. list_all (done_task s st) (set_iter e (dependencies dyn task))"
  have "fold (\<lambda>task acc. if ?C task then push_task e s task acc else acc) ?xs (Inr st) = Inr st'"
    using r by (simp add: refill_def Let_def)
  from fold_push_Inr[OF this] obtain ps where
    ps: "st' = st\<lparr>ready_tasks := ready_tasks st @ ps\<rparr>" "map snd ps = filter ?C ?xs" by blast
  have d: "distinct (map snd ps)" using ps(2) by simp
  have "snd ` set ps = set (map snd ps)" by simp
  also have "\<dots> = set (filter ?C ?xs)" using ps(2) by simp
  finally have sp: "snd ` set ps = set (filter ?C ?xs)" .
  have p: "\<forall>t \<in> snd ` set ps. \<not> done_task s st t \<and> deps_done s st dyn t
              \<and> t \<notin> snd ` set (ready_tasks st)"
    unfolding sp using empty by (auto simp: done_task_def list_all_done_iff)
  have "queue_inv s st' dyn" unfolding ps(1) by (rule queue_inv_push[OF q d p])
  then show ?thesis using ps(1) by simp
qed

lemma push_dependents_inv:
  assumes q: "queue_inv s st dyn"
    and nodep: "\<forall>d \<in> snd ` set (ready_tasks st). task \<notin> set (dependencies dyn d)"
    and r: "push_dependents e s dyn task st = Inr st'"
  shows "queue_inv s st' dyn \<and> failed_tasks st' = failed_tasks st
         \<and> scheduled_count st' = scheduled_count st \<and> task_retry_counts st' = task_retry_counts st"
proof -
  let ?xs = "set_iter e (dependents dyn task)"
  let ?C = "\<lambda>d. \<not> done_task s st d \<and> list_all (done_task s st) (set_iter e (dependencies dyn d))"
  have eq: "(\<lambda>dependent acc.
             if done_task s st dependent then acc
             else if list_all (done_task s st) (set_iter e (dependencies dyn dependent))
             then push_task e s dependent acc
             else acc) = (\<lambda>d acc. if ?C d then push_task e s d acc else acc)"
    by (auto simp: fun_eq_iff)
  have "fold (\<lambda>d acc. if ?C d then push_task e s d acc else acc) ?xs (Inr st) = Inr st'"
    using r unfolding push_dependents_def eq .
  from fold_push_Inr[OF this] obtain ps where
    ps: "st' = st\<lparr>ready_tasks := ready_tasks st @ ps\<rparr>" "map snd ps = filter ?C ?xs" by blast
  have d: "distinct (map snd ps)" using ps(2) by simp
  have "snd ` set ps = set (map snd ps)" by simp
  also have "\<dots> = set (filter ?C ?xs)" using ps(2) by simp
  finally have sp: "snd ` set ps = set (filter ?C ?xs)" .
  have p: "\<forall>t \<in> snd ` set ps. \<not> done_task s st t \<and> deps_done s st dyn t
              \<and> t \<notin> snd ` set (ready_tasks st)"
  proof
    fix t assume "t \<in> snd ` set ps"
    then have t: "t \<in> set (dependents dyn task)" "\<not> done_task s st t"
      "deps_done s st dyn t"
      unfolding sp by (auto simp: list_all_done_iff)
    have "task \<in> set (dependencies dyn t)" using t(1) by (simp add: dependents_iff)
    then have "t \<notin> snd ` set (ready_tasks st)" using nodep by blast
    then show "\<not> done_task s st t \<and> deps_done s st dyn t \<and> t \<notin> snd ` set (ready_tasks st)"
      using t by blast
  qed
  have "queue_inv s st' dyn" unfolding ps(1) by (rule queue_inv_push[OF q d p])
  then show ?thesis using ps(1) by simp
qed

lemma count_failure_inv:
  assumes q: "queue_inv s st dyn" and nd: "\<not> done_task s st task"
    and dd: "deps_done s st dyn task" and nh: "task \<notin> snd ` set (ready_tasks st)"
  shows "queue_inv s (count_failure priority task st) dyn"
proof (cases "task_retry_counts st task + 1 < 3")
  case True
  let ?st1 = "st\<lparr>task_retry_counts := (task_retry_counts st)(task := task_retry_counts st task + 1)\<rparr>"
  have q1: "queue_inv s ?st1 dyn" using q by simp
  have "queue_inv s (?st1\<lparr>ready_tasks := ready_tasks ?st1 @ [(priority + 1 / 10, task)]\<rparr>) dyn"
    by (rule queue_inv_push[OF q1]) (use nd dd nh in \<open>simp_all add: done_task_def deps_done_def\<close>)
  then show ?thesis using True by (simp add: count_failure_def Let_def heappush_def)
next
  case False
  let ?st1 = "st\<lparr>task_retry_counts := (task_retry_counts st)(task := task_retry_counts st task + 1)\<rparr>"
  have q1: "queue_inv s ?st1 dyn" using q by simp
  have "queue_inv s (?st1\<lparr>failed_tasks := set_add task (failed_tasks ?st1)\<rparr>) dyn"
    by (rule queue_inv_fail[OF q1]) (use nd nh in \<open>simp_all add: done_task_def\<close>)
  then show ?thesis using False by (simp add: count_failure_def Let_def)
qed

section \<open>The loop preserves the invariants\<close>

lemma schedule_one_inv:
  assumes inv: "run_inv s st dyn" and nd: "\<not> done_task s st task"
    and dd: "deps_done s st dyn task" and nh: "task \<notin> snd ` set (ready_tasks st)"
    and r: "schedule_one e s dyn st priority task = Inr (s', st')"
  shows "run_inv s' st' dyn \<and> same_inputs s s'"
proof -
  have q: "queue_inv s st dyn" and ci: "capacity_inv s" and wi: "workday_inv s"
    and pi: "precedence_inv s dyn"
    using inv by (simp_all add: run_inv_def)
  from r obtain ti where ti: "map_of (tasks s) task = Some ti"
    by (auto simp: schedule_one_def split: option.splits)
  define pl where "pl = (if falsy (task_product_line ti)
                         then fst (parse_product_task_id (PyStr task)) else task_product_line ti)"
  show ?thesis
  proof (cases "falsy pl")
    case True
    then have "s' = s" "st' = st" using r ti by (simp_all add: schedule_one_def pl_def Let_def)
    then show ?thesis using inv by (simp add: same_inputs_refl)
  next
    case nf: False
    show ?thesis
    proof (cases "find_slot s (earliest_start_of e s dyn task) (the pl) ti")
      case None
      then have "s' = s" "st' = count_failure priority task st"
        using r ti nf by (simp_all add: schedule_one_def pl_def Let_def)
      then show ?thesis
        using count_failure_inv[OF q nd dd nh] ci wi pi
        by (simp add: run_inv_def same_inputs_refl)
    next
      case (Some slot)
      obtain t tm sh where slot: "slot = (t, tm, sh)" by (cases slot) auto
      let ?s = "place s task ti (the pl) slot"
      let ?st = "st\<lparr>scheduled_count := scheduled_count st + 1\<rparr>"
      from r ti nf Some have pd: "push_dependents e ?s dyn task ?st = Inr st'" and s': "s' = ?s"
        by (auto simp: schedule_one_def pl_def Let_def split: sum.splits)
      have fs: "earliest_start_of e s dyn task \<le> t" "is_working_day s t (the pl)"
        "check_team_capacity_at_time s tm t (t + task_duration ti) (task_mechanics_required ti)"
        using find_slot_result[OF Some[unfolded slot]] by simp_all
      have fresh: "\<not> dict_has (task_schedule s) task" using nd by (simp add: done_task_def)
      have q1: "queue_inv ?s ?st dyn"
        using queue_inv_place[OF q nd dd nh] by simp
      have nodep: "\<forall>d \<in> snd ` set (ready_tasks ?st). task \<notin> set (dependencies dyn d)"
      proof
        fix d assume "d \<in> snd ` set (ready_tasks ?st)"
        then have "d \<in> snd ` set (ready_tasks st)" by simp
        then have "deps_done s st dyn d" using q unfolding queue_inv_def by blast
        then show "task \<notin> set (dependencies dyn d)" using nd by (auto simp: deps_done_def)
      qed
      have q2: "queue_inv ?s st' dyn" using push_dependents_inv[OF q1 nodep pd] by blast
      have "capacity_inv ?s" "workday_inv ?s" "precedence_inv ?s dyn"
        unfolding slot
        using capacity_inv_place[OF ci fresh fs(3)] workday_inv_place[OF wi fresh fs(2)]
          precedence_inv_place[OF pi q nd dd fs(1)] by blast+
      then show ?thesis using q2 s' place_same_inputs by (simp add: run_inv_def)
    qed
  qed
qed

lemma iteration_inv:
  assumes inv: "run_inv s st dyn"
    and r: "iteration e s dyn total_n st = Inr (c, s', st')"
  shows "run_inv s' st' dyn \<and> same_inputs s s'"
proof -
  have ci: "capacity_inv s" and wi: "workday_inv s" and pi: "precedence_inv s dyn"
    and q: "queue_inv s st dyn"
    using inv by (simp_all add: run_inv_def)
  define st1r where "st1r = (if ready_tasks st = [] \<and> scheduled_count st + length (failed_tasks st) < total_n
            then refill e s dyn st else Inr st)"
  from r obtain st1 where st1: "st1r = Inr st1"
    by (auto simp: iteration_def st1r_def[symmetric] split: sum.splits)
  have q1: "queue_inv s st1 dyn"
    using st1 q refill_inv[of s st dyn e st1] by (auto simp: st1r_def split: if_splits)
  show ?thesis
  proof (cases "ready_tasks st1 = []")
    case True
    then have "s' = s" "st' = st1"
      using r st1 by (simp_all add: iteration_def st1r_def[symmetric])
    then show ?thesis using q1 ci wi pi by (simp add: run_inv_def same_inputs_refl)
  next
    case ne: False
    obtain priority task where hm: "heap_min (ready_tasks st1) = (priority, task)"
      by (cases "heap_min (ready_tasks st1)") auto
    let ?rest = "remove1 (priority, task) (ready_tasks st1)"
    let ?st2 = "st1\<lparr>ready_tasks := ?rest\<rparr>"
    have x: "(priority, task) \<in> set (ready_tasks st1)"
      using heap_min_in[OF ne] hm by simp
    from queue_inv_pop[OF q1 x]
    have q2: "queue_inv s ?st2 dyn" and nh: "task \<notin> snd ` set ?rest"
      and nd: "\<not> done_task s st1 task" and dd: "deps_done s st1 dyn task" by simp_all
    have nd2: "\<not> done_task s ?st2 task" and dd2: "deps_done s ?st2 dyn task"
      using nd dd by (simp_all add: done_task_def deps_done_def)
    have nh2: "task \<notin> snd ` set (ready_tasks ?st2)" using nh by simp
    show ?thesis
    proof (cases "task_retry_counts ?st2 task \<ge> 3")
      case True
      then have "s' = s" "st' = ?st2\<lparr>failed_tasks := set_add task (failed_tasks ?st2)\<rparr>"
        using r st1 ne hm
        by (simp_all add: iteration_def st1r_def[symmetric] heappop_def Let_def)
      then show ?thesis
        using queue_inv_fail[OF q2 nd2 nh2] ci wi pi by (simp add: run_inv_def same_inputs_refl)
    next
      case False
      then have "schedule_one e s dyn ?st2 priority task = Inr (s', st')"
        using r st1 ne hm
        by (auto simp: iteration_def st1r_def[symmetric] heappop_def Let_def split: sum.splits)
      moreover have "run_inv s ?st2 dyn" using q2 ci wi pi by (simp add: run_inv_def)
      ultimately show ?thesis using schedule_one_inv nd2 dd2 nh2 by blast
    qed
  qed
qed

lemma schedule_loop_inv:
  "run_inv s st dyn \<Longrightarrow> schedule_loop n e s dyn total_n st = Inr (s', st')
     \<Longrightarrow> run_inv s' st' dyn \<and> same_inputs s s'"
proof (induction n arbitrary: s st)
  case 0
  then show ?case by (simp add: same_inputs_refl)
next
  case (Suc n)
  show ?case
  proof (cases "ready_tasks st \<noteq> [] \<or> scheduled_count st < total_n")
    case False
    then show ?thesis using Suc.prems by (auto simp: same_inputs_refl)
  next
    case True
    then obtain c s1 st1 where it: "iteration e s dyn total_n st = Inr (c, s1, st1)"
      using Suc.prems(2) by (auto split: sum.splits)
    have i1: "run_inv s1 st1 dyn" "same_inputs s s1"
      using iteration_inv[OF Suc.prems(1) it] by simp_all
    show ?thesis
    proof (cases c)
      case True
      then have "schedule_loop n e s1 dyn total_n st1 = Inr (s', st')"
        using Suc.prems(2) \<open>ready_tasks st \<noteq> [] \<or> scheduled_count st < total_n\<close> it by simp
      from Suc.IH[OF i1(1) this] i1(2) show ?thesis
        using same_inputs_trans by blast
    next
      case False
      then have "s' = s1" "st' = st1"
        using Suc.prems(2) \<open>ready_tasks st \<noteq> [] \<or> scheduled_count st < total_n\<close> it by simp_all
      then show ?thesis using i1 by simp
    qed
  qed
qed

section \<open>The invariants hold after every run\<close>

lemma add_steps_schedule:
  "add_precedence (s\<lparr>task_schedule := sch\<rparr>) = add_precedence s"
  "add_late_part (s\<lparr>task_schedule := sch\<rparr>) = add_late_part s"
  "add_rework (s\<lparr>task_schedule := sch\<rparr>) = add_rework s"
  by (simp_all add: fun_eq_iff add_precedence_def add_late_part_def add_rework_def
      add_redirected_def)

lemma build_dynamic_dependencies_schedule:
  "fst (build_dynamic_dependencies (s\<lparr>task_schedule := sch\<rparr>)) = fst (build_dynamic_dependencies s)"
  by (simp add: build_dynamic_dependencies_def compute_dynamic_constraints_def Let_def
      add_steps_schedule split: option.splits)

lemma build_dynamic_dependencies_same:
  "task_schedule (snd (build_dynamic_dependencies (s\<lparr>task_schedule := []\<rparr>))) = []
   \<and> tasks (snd (build_dynamic_dependencies (s\<lparr>task_schedule := []\<rparr>))) = tasks s
   \<and> capacity_of (snd (build_dynamic_dependencies (s\<lparr>task_schedule := []\<rparr>))) = capacity_of s
   \<and> is_working_day (snd (build_dynamic_dependencies (s\<lparr>task_schedule := []\<rparr>))) = is_working_day s"
  by (auto simp: build_dynamic_dependencies_def Let_def capacity_of_def
      is_working_day_def fun_eq_iff split: option.splits cong: if_cong)

lemma run_inv_initial:
  assumes e: "task_schedule s = []" and r: "initial_ready e s dyn = Inr st"
  shows "run_inv s st dyn"
proof -
  let ?C = "\<lambda>task. dependencies dyn task = []"
  have q0: "queue_inv s initial_locals dyn"
    using e by (simp add: queue_inv_def initial_locals_def dict_has_def)
  have "fold (\<lambda>task acc. if ?C task then push_task e s task acc else acc)
          (set_iter e (map fst (tasks s))) (Inr initial_locals) = Inr st"
    using r by (simp add: initial_ready_def)
  from fold_push_Inr[OF this] obtain ps where
    ps: "st = initial_locals\<lparr>ready_tasks := ready_tasks initial_locals @ ps\<rparr>"
      "map snd ps = filter ?C (set_iter e (map fst (tasks s)))" by blast
  have d: "distinct (map snd ps)" using ps(2) by simp
  have "snd ` set ps = set (map snd ps)" by simp
  also have "\<dots> = set (filter ?C (set_iter e (map fst (tasks s))))" using ps(2) by simp
  finally have sp: "snd ` set ps = set (filter ?C (set_iter e (map fst (tasks s))))" .
  have p: "\<forall>t \<in> snd ` set ps. \<not> done_task s initial_locals t \<and> deps_done s initial_locals dyn t
              \<and> t \<notin> snd ` set (ready_tasks initial_locals)"
    unfolding sp using e by (auto simp: done_task_def deps_done_def initial_locals_def dict_has_def)
  have "queue_inv s st dyn" unfolding ps(1) by (rule queue_inv_push[OF q0 d p])
  moreover have "capacity_inv s" "workday_inv s" "precedence_inv s dyn"
    using e by (simp_all add: capacity_inv_def covered_def workday_inv_def precedence_inv_def)
  ultimately show ?thesis by (simp add: run_inv_def)
qed

lemma schedule_run_inv:
  assumes r: "schedule_run e s allow_late silent = Inr (s', st)"
  shows "run_inv s' st (fst (build_dynamic_dependencies s))"
    and "tasks s' = tasks s" and "capacity_of s' = capacity_of s"
    and "is_working_day s' = is_working_day s"
proof -
  let ?s0 = "s\<lparr>task_schedule := []\<rparr>"
  let ?dyn = "fst (build_dynamic_dependencies ?s0)"
  let ?s1 = "snd (build_dynamic_dependencies ?s0)"
  have dyn: "?dyn = fst (build_dynamic_dependencies s)"
    by (rule build_dynamic_dependencies_schedule)
  from r obtain st0 where
    i: "initial_ready e ?s1 ?dyn = Inr st0" and
    l: "schedule_loop (length (tasks ?s1) * 10) e ?s1 ?dyn (length (tasks ?s1)) st0 = Inr (s', st)"
    by (auto simp: schedule_run_def placement_def Let_def split: sum.splits if_splits prod.splits)
  have b: "task_schedule ?s1 = []" "tasks ?s1 = tasks s" "capacity_of ?s1 = capacity_of s"
    "is_working_day ?s1 = is_working_day s"
    using build_dynamic_dependencies_same[of s] by simp_all
  have "run_inv ?s1 st0 ?dyn" by (rule run_inv_initial[OF b(1) i])
  from schedule_loop_inv[OF this l]
  have f: "run_inv s' st ?dyn" "same_inputs ?s1 s'" by simp_all
  show "run_inv s' st (fst (build_dynamic_dependencies s))" using f(1) dyn by simp
  show "tasks s' = tasks s" "capacity_of s' = capacity_of s" "is_working_day s' = is_working_day s"
    using same_inputs_fields[OF f(2)] b by simp_all
qed

lemma schedule_tasks_run:
  "schedule_tasks e s allow_late silent = Inr s' \<Longrightarrow>
     \<exists>st. schedule_run e s allow_late silent = Inr (s', st)"
  by (auto simp: schedule_tasks_def split: sum.splits if_splits)

lemma usage_at_uncovered: "\<not> covered sch tm t \<Longrightarrow> usage_at sch tm t = 0"
proof -
  assume "\<not> covered sch tm t"
  then have "filter (\<lambda>(task, a). team a = tm \<and> start_time a \<le> t \<and> t < end_time a) sch = []"
    by (auto simp: covered_def filter_empty_conv)
  then show ?thesis by (simp add: usage_at_def)
qed

section \<open>The errors a run can raise\<close>

lemma fold_pres: "(\<And>x a. P a \<Longrightarrow> P (f x a)) \<Longrightarrow> P a \<Longrightarrow> P (fold f xs a)"
  by (induction xs arbitrary: a) simp_all

lemma get_path_length_error:
  "get_path_length k s dyn task = Inl err \<Longrightarrow> err = KeyError \<or> err = RecursionError"
proof (induction k arbitrary: task err)
  case 0
  then show ?case by simp
next
  case (Suc k)
  let ?P = "\<lambda>acc :: py_error + int. \<forall>err. acc = Inl err \<longrightarrow> err = KeyError \<or> err = RecursionError"
  let ?f = "\<lambda>c acc.
                  case acc of
                    Inl err \<Rightarrow> Inl err
                  | Inr max_successor_path \<Rightarrow>
                      if First c = task \<and> dict_has (tasks s) (Second c) then
                        (case get_path_length k s dyn (Second c) of
                           Inl err \<Rightarrow> Inl err
                         | Inr successor_path \<Rightarrow> Inr (max max_successor_path successor_path))
                      else Inr max_successor_path"
  have "?P (fold ?f dyn (Inr 0))"
  proof (rule fold_pres)
    show "?P (Inr 0)" by simp
  next
    fix c acc assume "?P acc"
    then show "?P (?f c acc)" using Suc.IH by (auto split: sum.splits)
  qed
  then show ?case using Suc.prems by (auto split: option.splits sum.splits)
qed

lemma calculate_task_priority_error:
  "calculate_task_priority e s task = Inl err \<Longrightarrow> err = KeyError \<or> err = RecursionError"
  unfolding calculate_task_priority_def calculate_critical_path_length_def Let_def
  using get_path_length_error
  by (auto split: if_splits option.splits sum.splits)

lemma push_task_error:
  "push_task e s task acc = Inl err \<Longrightarrow>
     acc = Inl err \<or> err = KeyError \<or> err = RecursionError"
  using calculate_task_priority_error
  by (auto simp: push_task_def split: sum.splits)

lemma fold_push_error:
  assumes "fold (\<lambda>t acc. if C t then push_task e s t acc else acc) xs (Inr st) = Inl err"
  shows "err = KeyError \<or> err = RecursionError"
proof -
  let ?P = "\<lambda>acc :: py_error + locals. \<forall>err. acc = Inl err \<longrightarrow> err = KeyError \<or> err = RecursionError"
  have "?P (fold (\<lambda>t acc. if C t then push_task e s t acc else acc) xs (Inr st))"
  proof (rule fold_pres)
    show "?P (Inr st)" by simp
  next
    fix x acc assume "?P acc"
    then show "?P (if C x then push_task e s x acc else acc)"
      by (auto split: if_splits dest: push_task_error)
  qed
  then show ?thesis using assms by simp
qed

lemma refill_error:
  "refill e s dyn st = Inl err \<Longrightarrow> err = KeyError \<or> err = RecursionError"
  unfolding refill_def Let_def by (rule fold_push_error)

lemma initial_ready_error:
  "initial_ready e s dyn = Inl err \<Longrightarrow> err = KeyError \<or> err = RecursionError"
  unfolding initial_ready_def by (rule fold_push_error)

lemma push_dependents_error:
  assumes "push_dependents e s dyn task st = Inl err"
  shows "err = KeyError \<or> err = RecursionError"
proof -
  let ?C = "\<lambda>d. \<not> done_task s st d \<and> list_all (done_task s st) (set_iter e (dependencies dyn d))"
  have eq: "(\<lambda>dependent acc.
             if done_task s st dependent then acc
             else if list_all (done_task s st) (set_iter e (dependencies dyn dependent))
             then push_task e s dependent acc
             else acc) = (\<lambda>d acc. if ?C d then push_task e s d acc else acc)"
    by (auto simp: fun_eq_iff)
  show ?thesis
    using assms unfolding push_dependents_def eq by (rule fold_push_error)
qed

lemma schedule_one_error:
  "schedule_one e s dyn st priority task = Inl err \<Longrightarrow> err = KeyError \<or> err = RecursionError"
  unfolding schedule_one_def Let_def
  using push_dependents_error
  by (auto split: option.splits if_splits sum.splits)

lemma iteration_error:
  "iteration e s dyn total_n st = Inl err \<Longrightarrow> err = KeyError \<or> err = RecursionError"
  unfolding iteration_def Let_def heappop_def
  using refill_error schedule_one_error
  by (auto split: sum.splits if_splits prod.splits)

lemma schedule_loop_error:
  "schedule_loop n e s dyn total_n st = Inl err \<Longrightarrow> err = KeyError \<or> err = RecursionError"
proof (induction n arbitrary: s st)
  case 0
  then show ?case by simp
next
  case (Suc n)
  then show ?case
    using iteration_error by (auto split: if_splits sum.splits prod.splits)
qed

lemma has_cycle_dfs_error:
  "has_cycle_dfs k e dyn node visited rec_stack = Inl err \<Longrightarrow> err = RecursionError"
proof (induction k arbitrary: node visited rec_stack err)
  case 0
  then show ?case by simp
next
  case (Suc k)
  let ?P = "\<lambda>acc :: py_error + (bool \<times> task_id list). \<forall>err. acc = Inl err \<longrightarrow> err = RecursionError"
  let ?f = "\<lambda>neighbor acc.
             case acc of
               Inl err \<Rightarrow> Inl err
             | Inr (found, vis) \<Rightarrow>
                 if found then acc
                 else if neighbor \<notin> set vis
                   then has_cycle_dfs k e dyn neighbor vis (node # rec_stack)
                 else if neighbor \<in> set (node # rec_stack) then Inr (True, vis)
                 else acc"
  have "?P (fold ?f (set_iter e (neighbors dyn node)) (Inr (False, node # visited)))"
  proof (rule fold_pres)
    show "?P (Inr (False, node # visited))" by simp
  next
    fix x acc assume "?P acc"
    then show "?P (?f x acc)" using Suc.IH by (auto split: sum.splits prod.splits if_splits)
  qed
  then show ?case using Suc.prems by simp
qed

lemma validate_dag_error:
  assumes "validate_dag e s = Inl err"
  shows "err = RecursionError"
proof -
  let ?dyn = "fst (build_dynamic_dependencies s)"
  let ?P = "\<lambda>acc :: py_error + (bool \<times> task_id list). \<forall>err. acc = Inl err \<longrightarrow> err = RecursionError"
  let ?f = "\<lambda>node acc.
                    case acc of
                      Inl err \<Rightarrow> Inl err
                    | Inr (found, vis) \<Rightarrow>
                        if found then acc
                        else if node \<notin> set vis
                          then has_cycle_dfs (recursion_limit e) e ?dyn node vis []
                        else acc"
  have "\<And>xs. ?P (fold ?f xs (Inr (False, [])))"
  proof (rule fold_pres)
    show "?P (Inr (False, []))" by simp
  next
    fix x acc assume "?P acc"
    then show "?P (?f x acc)"
      using has_cycle_dfs_error by (auto split: sum.splits prod.splits if_splits)
  qed
  then show ?thesis
    using assms unfolding validate_dag_def Let_def
    by (auto split: if_splits sum.splits prod.splits)
qed

lemma schedule_run_error:
  assumes "schedule_run e s allow_late silent = Inl err"
  shows "err = KeyError \<or> err = RecursionError \<or> (err = ValueError \<and> \<not> silent)"
  using assms unfolding schedule_run_def placement_def Let_def
  by (auto split: sum.splits if_splits prod.splits
      dest: validate_dag_error initial_ready_error schedule_loop_error)

section \<open>Dependence of a run on the clock\<close>

lemma same_inputs_delivery: "same_inputs s s' \<Longrightarrow> delivery_dates s' = delivery_dates s"
proof -
  assume "same_inputs s s'"
  then have e: "s' = s\<lparr>task_schedule := task_schedule s'\<rparr>" by (simp add: same_inputs_def)
  show ?thesis by (subst e) simp
qed

lemma same_clock_days_inputs:
  "same_clock_days e1 e2 s \<Longrightarrow> delivery_dates s' = delivery_dates s \<Longrightarrow> same_clock_days e1 e2 s'"
  by (simp add: same_clock_days_def)

lemma schedule_one_frame:
  "schedule_one e s dyn st priority task = Inr (s', st') \<Longrightarrow> same_inputs s s'"
  unfolding schedule_one_def Let_def
  by (auto split: option.splits if_splits sum.splits simp: same_inputs_refl place_same_inputs)

lemma iteration_frame:
  "iteration e s dyn total_n st = Inr (c, s', st') \<Longrightarrow> same_inputs s s'"
  unfolding iteration_def Let_def heappop_def
  by (auto split: sum.splits if_splits prod.splits simp: same_inputs_refl dest: schedule_one_frame)

lemma set_iter_cong: "same_clock_days e1 e2 s \<Longrightarrow> set_iter e2 = set_iter e1"
proof -
  assume "same_clock_days e1 e2 s"
  then have r: "set_rank e2 = set_rank e1" by (simp add: same_clock_days_def)
  show ?thesis unfolding set_iter_def r ..
qed

lemma calculate_task_priority_cong:
  assumes "same_clock_days e1 e2 s"
  shows "calculate_task_priority e2 s task = calculate_task_priority e1 s task"
proof -
  have r: "recursion_limit e2 = recursion_limit e1" using assms by (simp add: same_clock_days_def)
  have d: "\<And>p d. map_of (delivery_dates s) p = Some d \<Longrightarrow>
              (d - now e2) div 1440 = (d - now e1) div 1440"
    using assms by (auto simp: same_clock_days_def dest!: map_of_SomeD)
  show ?thesis
    unfolding calculate_task_priority_def calculate_critical_path_length_def Let_def r
    by (auto split: option.splits sum.splits simp: d)
qed

lemma push_task_cong:
  "same_clock_days e1 e2 s \<Longrightarrow> push_task e2 s = push_task e1 s"
  by (simp add: push_task_def fun_eq_iff calculate_task_priority_cong cong: sum.case_cong)

lemma refill_cong:
  "same_clock_days e1 e2 s \<Longrightarrow> refill e2 s dyn st = refill e1 s dyn st"
  by (simp add: refill_def set_iter_cong[of e1 e2 s] push_task_cong[of e1 e2 s] cong: if_cong)

lemma initial_ready_cong:
  "same_clock_days e1 e2 s \<Longrightarrow> initial_ready e2 s dyn = initial_ready e1 s dyn"
  by (simp add: initial_ready_def set_iter_cong[of e1 e2 s] push_task_cong[of e1 e2 s] cong: if_cong)

lemma push_dependents_cong:
  "same_clock_days e1 e2 s \<Longrightarrow> push_dependents e2 s dyn task st = push_dependents e1 s dyn task st"
  by (simp add: push_dependents_def set_iter_cong[of e1 e2 s] push_task_cong[of e1 e2 s] cong: if_cong)

lemma earliest_start_of_cong:
  "same_clock_days e1 e2 s \<Longrightarrow> earliest_start_of e2 s dyn task = earliest_start_of e1 s dyn task"
  by (simp add: earliest_start_of_def set_iter_cong[of e1 e2 s])

lemma schedule_one_cong:
  assumes "same_clock_days e1 e2 s"
  shows "schedule_one e2 s dyn st priority task = schedule_one e1 s dyn st priority task"
proof -
  have p: "\<And>ti pl slot. push_dependents e2 (place s task ti pl slot) dyn task
                = push_dependents e1 (place s task ti pl slot) dyn task"
    using same_clock_days_inputs[OF assms same_inputs_delivery[OF place_same_inputs]]
    by (simp add: fun_eq_iff push_dependents_cong)
  show ?thesis
    unfolding schedule_one_def Let_def earliest_start_of_cong[OF assms] p ..
qed

lemma iteration_cong:
  assumes "same_clock_days e1 e2 s"
  shows "iteration e2 s dyn total_n st = iteration e1 s dyn total_n st"
  unfolding iteration_def Let_def refill_cong[OF assms] schedule_one_cong[OF assms] ..

lemma schedule_loop_cong:
  "same_clock_days e1 e2 s \<Longrightarrow>
     schedule_loop n e2 s dyn total_n st = schedule_loop n e1 s dyn total_n st"
proof (induction n arbitrary: s st)
  case 0
  then show ?case by simp
next
  case (Suc n)
  have it: "iteration e2 s dyn total_n st = iteration e1 s dyn total_n st"
    by (rule iteration_cong[OF Suc.prems])
  show ?case
  proof (cases "iteration e1 s dyn total_n st")
    case (Inl err)
    then show ?thesis using it by simp
  next
    case (Inr r)
    obtain c s' st' where r: "r = (c, s', st')" by (cases r) auto
    have "same_clock_days e1 e2 s'"
      using same_clock_days_inputs[OF Suc.prems same_inputs_delivery[OF iteration_frame]]
        Inr r by blast
    then have "schedule_loop n e2 s' dyn total_n st' = schedule_loop n e1 s' dyn total_n st'"
      by (rule Suc.IH)
    then show ?thesis using it Inr r by simp
  qed
qed

lemma has_cycle_dfs_cong:
  "set_iter e2 = set_iter e1 \<Longrightarrow>
     has_cycle_dfs k e2 dyn node visited rec_stack = has_cycle_dfs k e1 dyn node visited rec_stack"
proof (induction k arbitrary: node visited rec_stack)
  case 0
  then show ?case by simp
next
  case (Suc k)
  have "\<And>node visited rec_stack. has_cycle_dfs k e2 dyn node visited rec_stack
          = has_cycle_dfs k e1 dyn node visited rec_stack"
    using Suc by blast
  then have f: "has_cycle_dfs k e2 dyn = has_cycle_dfs k e1 dyn" by (simp add: fun_eq_iff)
  show ?case unfolding has_cycle_dfs.simps Suc.prems f ..
qed

lemma validate_dag_cong:
  assumes "same_clock_days e1 e2 s"
  shows "validate_dag e2 s = validate_dag e1 s"
proof -
  have si: "set_iter e2 = set_iter e1" by (rule set_iter_cong[OF assms])
  have r: "recursion_limit e2 = recursion_limit e1" using assms by (simp add: same_clock_days_def)
  have "\<And>k dyn. has_cycle_dfs k e2 dyn = has_cycle_dfs k e1 dyn"
    using has_cycle_dfs_cong[OF si] by (simp add: fun_eq_iff)
  then have h: "\<And>k dyn. has_cycle_dfs k e2 dyn = has_cycle_dfs k e1 dyn" .
  show ?thesis unfolding validate_dag_def Let_def si r h ..
qed

lemma build_dynamic_dependencies_delivery:
  "delivery_dates (snd (build_dynamic_dependencies s)) = delivery_dates s"
  by (simp add: build_dynamic_dependencies_def Let_def split: option.splits)

lemma placement_cong:
  assumes "same_clock_days e1 e2 s"
  shows "placement e2 s = placement e1 s"
proof -
  obtain dyn s1 where b: "build_dynamic_dependencies s = (dyn, s1)"
    by (cases "build_dynamic_dependencies s") auto
  have "delivery_dates s1 = delivery_dates s"
    using build_dynamic_dependencies_delivery[of s] b by simp
  then have c: "same_clock_days e1 e2 s1" by (rule same_clock_days_inputs[OF assms])
  have l: "\<And>n total_n st. schedule_loop n e2 s1 dyn total_n st = schedule_loop n e1 s1 dyn total_n st"
    by (rule schedule_loop_cong[OF c])
  show ?thesis
    unfolding placement_def b prod.case Let_def initial_ready_cong[OF c] l ..
qed

lemma schedule_run_cong:
  assumes "same_clock_days e1 e2 s"
  shows "schedule_run e2 s allow_late silent = schedule_run e1 s allow_late silent"
proof -
  have c: "same_clock_days e1 e2 (s\<lparr>task_schedule := []\<rparr>)"
    by (rule same_clock_days_inputs[OF assms]) simp
  show ?thesis
    unfolding schedule_run_def Let_def validate_dag_cong[OF c] placement_cong[OF c] ..
qed

lemma schedule_tasks_cong:
  "same_clock_days e1 e2 s \<Longrightarrow>
     schedule_tasks e2 s allow_late silent = schedule_tasks e1 s allow_late silent"
  by (simp add: schedule_tasks_def schedule_run_cong)

lemma schedule_loop_frame:
  "schedule_loop n e s dyn total_n st = Inr (s', st') \<Longrightarrow> same_inputs s s'"
proof (induction n arbitrary: s st)
  case 0
  then show ?case by (simp add: same_inputs_refl)
next
  case (Suc n)
  show ?case
  proof (cases "ready_tasks st \<noteq> [] \<or> scheduled_count st < total_n")
    case False
    then show ?thesis using Suc.prems by (auto simp: same_inputs_refl)
  next
    case True
    then obtain c s1 st1 where it: "iteration e s dyn total_n st = Inr (c, s1, st1)"
      using Suc.prems by (auto split: sum.splits)
    have f: "same_inputs s s1" by (rule iteration_frame[OF it])
    show ?thesis
    proof (cases c)
      case True
      then have "schedule_loop n e s1 dyn total_n st1 = Inr (s', st')"
        using Suc.prems \<open>ready_tasks st \<noteq> [] \<or> scheduled_count st < total_n\<close> it by simp
      from Suc.IH[OF this] f show ?thesis using same_inputs_trans by blast
    next
      case False
      then have "s' = s1"
        using Suc.prems \<open>ready_tasks st \<noteq> [] \<or> scheduled_count st < total_n\<close> it by simp
      then show ?thesis using f by simp
    qed
  qed
qed

lemma schedule_tasks_delivery:
  assumes "schedule_tasks e s allow_late silent = Inr s'"
  shows "delivery_dates s' = delivery_dates s"
proof -
  obtain st where r: "schedule_run e s allow_late silent = Inr (s', st)"
    using schedule_tasks_run[OF assms] by blast
  let ?s0 = "s\<lparr>task_schedule := []\<rparr>"
  obtain dyn s1 where b: "build_dynamic_dependencies ?s0 = (dyn, s1)"
    by (cases "build_dynamic_dependencies ?s0") auto
  from r b obtain st0 where
    "schedule_loop (length (tasks s1) * 10) e s1 dyn (length (tasks s1)) st0 = Inr (s', st)"
    by (auto simp: schedule_run_def placement_def Let_def split: sum.splits if_splits)
  then have "delivery_dates s' = delivery_dates s1"
    using same_inputs_delivery[OF schedule_loop_frame] by blast
  moreover have "delivery_dates s1 = delivery_dates ?s0"
    using build_dynamic_dependencies_delivery[of ?s0] b by simp
  ultimately show ?thesis by simp
qed

lemma make_entry_cong:
  "same_clock_days e1 e2 s \<Longrightarrow> make_entry e2 s = make_entry e1 s"
  unfolding make_entry_def fun_eq_iff
  by (simp add: calculate_task_priority_cong cong: prod.case_cong)

lemma make_entries_cong:
  assumes "same_clock_days e1 e2 s"
  shows "make_entries e2 s xs = make_entries e1 s xs"
proof (induction xs)
  case Nil
  then show ?case by simp
next
  case (Cons x xs)
  show ?case unfolding make_entries.simps make_entry_cong[OF assms] Cons ..
qed

section \<open>Properties of the returned schedule\<close>

lemma chain_example_run:
  "map_sum id task_schedule (schedule_tasks example_env chain_example True True) =
     Inr [(''P_1'', \<lparr>start_time = 6120, end_time = 6122, team = ''M'', product_line = ''Product P'',
              duration = 2, mechanics_required = 1, is_quality = False,
              task_type = ''Production'', shift = ''1st''\<rparr>),
          (''P_2'', \<lparr>start_time = 6122, end_time = 6124, team = ''M'', product_line = ''Product P'',
              duration = 2, mechanics_required = 1, is_quality = False,
              task_type = ''Production'', shift = ''1st''\<rparr>)]"
  by code_simp


lemma chain_example_capacity: "capacity_of chain_example ''M'' = 1"
  by code_simp




text \<open>
  Claim C2.  In the schedule that a run returns, at every minute the head count in use
  on a team is at most the team's capacity.  Head counts are non-negative in the data;
  the bound holds at every minute that some assignment of the team covers, and at every
  minute whatsoever when the capacity is not negative.
\<close>

theorem capacity_never_exceeded:
  assumes "schedule_tasks e s allow_late_delivery silent_mode = Inr s'"
    and "covered (task_schedule s') tm t \<or> 0 \<le> capacity_of s tm"
  shows "usage_at (task_schedule s') tm t \<le> capacity_of s tm"
proof -
  obtain st where r: "schedule_run e s allow_late_delivery silent_mode = Inr (s', st)"
    using schedule_tasks_run[OF assms(1)] by blast
  have inv: "capacity_inv s'" using schedule_run_inv(1)[OF r] by (simp add: run_inv_def)
  have cap: "capacity_of s' = capacity_of s" by (rule schedule_run_inv(3)[OF r])
  show ?thesis
  proof (cases "covered (task_schedule s') tm t")
    case True
    then show ?thesis using inv cap by (simp add: capacity_inv_def)
  next
    case False
    then show ?thesis using assms(2) by (simp add: usage_at_uncovered)
  qed
qed

theorem capacity_never_exceeded_witness:
  "(case schedule_tasks example_env chain_example True True of
      Inl err \<Rightarrow> False
    | Inr s' \<Rightarrow> covered (task_schedule s') ''M'' 6121
                \<and> usage_at (task_schedule s') ''M'' 6121 \<le> capacity_of chain_example ''M'')"
proof -
  obtain s' where r: "schedule_tasks example_env chain_example True True = Inr s'"
    and sch: "task_schedule s' =
      [(''P_1'', \<lparr>start_time = 6120, end_time = 6122, team = ''M'', product_line = ''Product P'',
              duration = 2, mechanics_required = 1, is_quality = False,
              task_type = ''Production'', shift = ''1st''\<rparr>),
          (''P_2'', \<lparr>start_time = 6122, end_time = 6124, team = ''M'', product_line = ''Product P'',
              duration = 2, mechanics_required = 1, is_quality = False,
              task_type = ''Production'', shift = ''1st''\<rparr>)]"
    using chain_example_run
    by (cases "schedule_tasks example_env chain_example True True") auto
  have c: "covered (task_schedule s') ''M'' 6121" by (simp add: sch covered_def)
  then have "usage_at (task_schedule s') ''M'' 6121 \<le> capacity_of chain_example ''M''"
    using capacity_never_exceeded[OF r] by blast
  then show ?thesis using r c by simp
qed

text \<open>
  Claim C3 (as amended).  For every assignment of the schedule that a run returns, the
  calendar day of its start minute is a working day for its product: a weekday that is
  not among the product's holidays.  Nothing is checked for the later minutes of the
  task.
\<close>

theorem start_on_working_day:
  assumes "schedule_tasks e s allow_late_delivery silent_mode = Inr s'"
    and "(task, a) \<in> set (task_schedule s')"
  shows "is_working_day s (start_time a) (product_line a)"
proof -
  obtain st where r: "schedule_run e s allow_late_delivery silent_mode = Inr (s', st)"
    using schedule_tasks_run[OF assms(1)] by blast
  have "workday_inv s'" using schedule_run_inv(1)[OF r] by (simp add: run_inv_def)
  then have "is_working_day s' (start_time a) (product_line a)"
    using assms(2) by (auto simp: workday_inv_def)
  then show ?thesis using schedule_run_inv(4)[OF r] by simp
qed

theorem start_on_working_day_witness:
  "(case schedule_tasks example_env chain_example True True of
      Inl err \<Rightarrow> False
    | Inr s' \<Rightarrow>
        (case map_of (task_schedule s') ''P_2'' of
           Some a \<Rightarrow> is_working_day chain_example (start_time a) (product_line a)
         | None \<Rightarrow> False))"
proof -
  obtain s' where r: "schedule_tasks example_env chain_example True True = Inr s'"
    and sch: "task_schedule s' =
      [(''P_1'', \<lparr>start_time = 6120, end_time = 6122, team = ''M'', product_line = ''Product P'',
              duration = 2, mechanics_required = 1, is_quality = False,
              task_type = ''Production'', shift = ''1st''\<rparr>),
          (''P_2'', \<lparr>start_time = 6122, end_time = 6124, team = ''M'', product_line = ''Product P'',
              duration = 2, mechanics_required = 1, is_quality = False,
              task_type = ''Production'', shift = ''1st''\<rparr>)]"
    using chain_example_run
    by (cases "schedule_tasks example_env chain_example True True") auto
  obtain a where m: "map_of (task_schedule s') ''P_2'' = Some a" by (simp add: sch)
  then have "(''P_2'', a) \<in> set (task_schedule s')" by (rule map_of_SomeD)
  then have "is_working_day chain_example (start_time a) (product_line a)"
    by (rule start_on_working_day[OF r])
  then show ?thesis using r m by simp
qed

text \<open>
  The claim as first stated covers every minute of the task.  In the night example the
  task starts on Friday at 23:00 and runs two hours, so it occupies Saturday 00:00.
\<close>

theorem start_on_working_day_counterexample:
  "(case schedule_tasks example_env night_example True True of
      Inl err \<Rightarrow> False
    | Inr s' \<Rightarrow>
        (case map_of (task_schedule s') ''P_1'' of
           Some a \<Rightarrow> start_time a \<le> 7200 \<and> 7200 < end_time a
                     \<and> \<not> is_working_day night_example 7200 (product_line a)
         | None \<Rightarrow> False))"
  by code_simp

section \<open>Failed capacity searches\<close>
















section \<open>Validation and silent mode\<close>

text \<open>
  Claim C9.  With \<open>silent_mode\<close> set, \<open>schedule_tasks\<close> does not validate the graph: the
  run is the placement on the cleared schedule, and the validation error is never its
  outcome, whatever the graph.  Without \<open>silent_mode\<close> the validation runs first, and
  the run ends in the validation error exactly when \<open>validate_dag\<close> returns false.
\<close>

theorem silent_mode_skips_validation:
  "schedule_run e s allow_late_delivery True = placement e (s\<lparr>task_schedule := []\<rparr>)
   \<and> schedule_tasks e s allow_late_delivery True \<noteq> Inl ValueError
   \<and> (schedule_tasks e s allow_late_delivery False = Inl ValueError
        \<longleftrightarrow> validate_dag e (s\<lparr>task_schedule := []\<rparr>) = Inr False)"
proof (intro conjI)
  show "schedule_run e s allow_late_delivery True = placement e (s\<lparr>task_schedule := []\<rparr>)"
    by (simp add: schedule_run_def)
  show "schedule_tasks e s allow_late_delivery True \<noteq> Inl ValueError"
    by (auto simp: schedule_tasks_def split: sum.splits dest: schedule_run_error)
  have p: "placement e (s\<lparr>task_schedule := []\<rparr>) \<noteq> Inl ValueError"
    using schedule_run_error[of e s allow_late_delivery True ValueError]
    by (auto simp: schedule_run_def)
  show "schedule_tasks e s allow_late_delivery False = Inl ValueError
        \<longleftrightarrow> validate_dag e (s\<lparr>task_schedule := []\<rparr>) = Inr False"
  proof
    assume "schedule_tasks e s allow_late_delivery False = Inl ValueError"
    then have "schedule_run e s allow_late_delivery False = Inl ValueError"
      by (auto simp: schedule_tasks_def split: sum.splits if_splits)
    then show "validate_dag e (s\<lparr>task_schedule := []\<rparr>) = Inr False"
      using p by (auto simp: schedule_run_def Let_def split: sum.splits if_splits dest: validate_dag_error)
  next
    assume "validate_dag e (s\<lparr>task_schedule := []\<rparr>) = Inr False"
    then show "schedule_tasks e s allow_late_delivery False = Inl ValueError"
      by (simp add: schedule_tasks_def schedule_run_def Let_def)
  qed
qed

lemma cyclic_example_validation:
  "validate_dag example_env (cyclic_example\<lparr>task_schedule := []\<rparr>) = Inr False"
  by code_simp

lemma cyclic_example_silent:
  "map_sum id task_schedule (schedule_tasks example_env cyclic_example True True) = Inr []"
  by code_simp

theorem silent_mode_skips_validation_witness:
  "validate_dag example_env (cyclic_example\<lparr>task_schedule := []\<rparr>) = Inr False
   \<and> schedule_tasks example_env cyclic_example True False = Inl ValueError
   \<and> schedule_tasks example_env cyclic_example True True \<noteq> Inl ValueError
   \<and> map_sum id task_schedule (schedule_tasks example_env cyclic_example True True) = Inr []"
  using silent_mode_skips_validation[of example_env cyclic_example True]
    cyclic_example_validation cyclic_example_silent
  by simp

section \<open>Slack and makespan\<close>

text \<open>
  Claim C4 (as amended).  The slack computation returns positive infinity for every
  instance whose product line or delivery date cannot be resolved.  For an instance
  whose product line and delivery date resolve but which is not in the current
  schedule, it returns 0.
\<close>

theorem slack_of_unresolved_or_unscheduled:
  "(falsy (slack_product_line s task) \<longrightarrow> calculate_slack_time s task = Infinity)
   \<and> (\<not> falsy (slack_product_line s task)
        \<and> map_of (delivery_dates s) (the (slack_product_line s task)) = None
        \<longrightarrow> calculate_slack_time s task = Infinity)
   \<and> (\<not> falsy (slack_product_line s task)
        \<and> map_of (delivery_dates s) (the (slack_product_line s task)) \<noteq> None
        \<and> \<not> dict_has (task_schedule s) task
        \<longrightarrow> calculate_slack_time s task = Hours 0)"
  by (auto simp: calculate_slack_time_def Let_def dict_has_def)

theorem slack_of_unresolved_or_unscheduled_witness:
  "calculate_slack_time empty_scheduler ''no underscore'' = Infinity
   \<and> calculate_slack_time empty_scheduler ''Q_7'' = Infinity
   \<and> calculate_slack_time no_shift_loaded ''P_1'' = Hours 0"
proof -
  have 1: "falsy (slack_product_line empty_scheduler ''no underscore'')" by code_simp
  have 2: "\<not> falsy (slack_product_line empty_scheduler ''Q_7'')
        \<and> map_of (delivery_dates empty_scheduler) (the (slack_product_line empty_scheduler ''Q_7'')) = None"
    by code_simp
  have 3: "\<not> falsy (slack_product_line no_shift_loaded ''P_1'')
        \<and> map_of (delivery_dates no_shift_loaded) (the (slack_product_line no_shift_loaded ''P_1'')) \<noteq> None
        \<and> \<not> dict_has (task_schedule no_shift_loaded) ''P_1''"
    by code_simp
  show ?thesis
    using slack_of_unresolved_or_unscheduled[of empty_scheduler "''no underscore''", THEN conjunct1]
      slack_of_unresolved_or_unscheduled[of empty_scheduler "''Q_7''", THEN conjunct2, THEN conjunct1]
      slack_of_unresolved_or_unscheduled[of no_shift_loaded "''P_1''", THEN conjunct2, THEN conjunct2]
      1 2 3 by blast
qed

text \<open>
  The claim as first stated promises infinity for every unscheduled instance.  The task
  of the example below is a live instance with a product and a delivery date, and it is
  not scheduled.
\<close>

theorem slack_of_unresolved_or_unscheduled_counterexample:
  "dict_has (tasks no_shift_loaded) ''P_1'' \<and> \<not> dict_has (task_schedule no_shift_loaded) ''P_1''
   \<and> calculate_slack_time no_shift_loaded ''P_1'' \<noteq> Infinity"
  by code_simp

lemma working_days_loop_count:
  "working_days_loop s current end_date n =
     n + int (card {d. current \<le> d \<and> d \<le> end_date
                    \<and> (\<exists>(product, ts) \<in> set (product_tasks s). is_working_day s (d * 1440) product)})"
proof (induction s current end_date n rule: working_days_loop.induct)
  case (1 s current end_date n)
  let ?W = "\<lambda>d. \<exists>(product, ts) \<in> set (product_tasks s). is_working_day s (d * 1440) product"
  show ?case
  proof (cases "current \<le> end_date")
    case False
    then have "{d. current \<le> d \<and> d \<le> end_date \<and> ?W d} = {}" by auto
    then have "card {d. current \<le> d \<and> d \<le> end_date \<and> ?W d} = 0" by (simp only: card.empty)
    then show ?thesis using False by (subst working_days_loop.simps) (simp only: if_False of_nat_0 add_0_right)
  next
    case True
    have ex: "list_ex (\<lambda>(product, ts). is_working_day s (current * 1440) product) (product_tasks s)
                \<longleftrightarrow> ?W current"
      by (auto simp: list_ex_iff)
    have fin: "finite {d. current + 1 \<le> d \<and> d \<le> end_date \<and> ?W d}"
      by (rule finite_subset[of _ "{current + 1..end_date}"]) auto
    have split: "{d. current \<le> d \<and> d \<le> end_date \<and> ?W d}
        = (if ?W current then {current} else {}) \<union> {d. current + 1 \<le> d \<and> d \<le> end_date \<and> ?W d}"
      using True by (auto simp: order_le_less) 
    have notin: "current \<notin> {d. current + 1 \<le> d \<and> d \<le> end_date \<and> ?W d}" by simp
    have card: "int (card {d. current \<le> d \<and> d \<le> end_date \<and> ?W d})
        = (if ?W current then 1 else 0)
          + int (card {d. current + 1 \<le> d \<and> d \<le> end_date \<and> ?W d})"
      unfolding split using fin notin by (simp del: One_nat_def)
    have "working_days_loop s current end_date n
        = working_days_loop s (current + 1) end_date (if ?W current then n + 1 else n)"
      using True ex by (subst working_days_loop.simps) (simp add: Let_def)
    also have "\<dots> = (if ?W current then n + 1 else n)
          + int (card {d. current + 1 \<le> d \<and> d \<le> end_date \<and> ?W d})"
      using 1[OF True refl] ex by (simp add: Let_def)
    finally show ?thesis using card by simp
  qed
qed


lemma fold_min_Min: "fold min xs (x :: int) = Min (set (x # xs))"
  by (simp only: Min.set_eq_fold)

lemma fold_max_Max: "fold max xs (x :: int) = Max (set (x # xs))"
  by (simp only: Max.set_eq_fold)

text \<open>
  Claim C5 (as amended).  With an empty schedule the makespan computation returns 0.
  With a non-empty schedule it returns the sentinel 999999 whenever a live task instance
  is absent from the schedule, and otherwise the number of calendar days between the day
  of the least start and the day of the greatest end that are a working day for at least
  one product.
\<close>

theorem makespan_cases:
  "(task_schedule s = [] \<longrightarrow> calculate_makespan s = 0)
   \<and> (task_schedule s \<noteq> [] \<and> distinct (map fst (tasks s))
        \<and> distinct (map fst (task_schedule s))
        \<and> fst ` set (task_schedule s) \<subseteq> fst ` set (tasks s)
        \<and> (\<exists>t \<in> fst ` set (tasks s). \<not> dict_has (task_schedule s) t)
        \<longrightarrow> calculate_makespan s = 999999)
   \<and> (task_schedule s \<noteq> [] \<and> distinct (map fst (tasks s))
        \<and> (\<forall>t \<in> fst ` set (tasks s). dict_has (task_schedule s) t)
        \<longrightarrow> calculate_makespan s =
              int (card {d. date (Min ((\<lambda>(task, a). start_time a) ` set (task_schedule s))) \<le> d
                          \<and> d \<le> date (Max ((\<lambda>(task, a). end_time a) ` set (task_schedule s)))
                          \<and> (\<exists>(product, ts) \<in> set (product_tasks s).
                                 is_working_day s (d * 1440) product)}))"
proof (intro conjI impI)
  assume "task_schedule s = []"
  then show "calculate_makespan s = 0" by (simp add: calculate_makespan_def)
next
  assume a: "task_schedule s \<noteq> [] \<and> distinct (map fst (tasks s))
        \<and> distinct (map fst (task_schedule s))
        \<and> fst ` set (task_schedule s) \<subseteq> fst ` set (tasks s)
        \<and> (\<exists>t \<in> fst ` set (tasks s). \<not> dict_has (task_schedule s) t)"
  then have "fst ` set (task_schedule s) \<subset> fst ` set (tasks s)"
    by (auto simp: dict_has_iff)
  then have "card (fst ` set (task_schedule s)) < card (fst ` set (tasks s))"
    by (intro psubset_card_mono) simp_all
  moreover have "card (fst ` set (task_schedule s)) = length (task_schedule s)"
    using a distinct_card[of "map fst (task_schedule s)"] by simp
  moreover have "card (fst ` set (tasks s)) = length (tasks s)"
    using a distinct_card[of "map fst (tasks s)"] by simp
  ultimately have "length (task_schedule s) < length (tasks s)" by simp
  then show "calculate_makespan s = 999999"
    using a by (auto simp: calculate_makespan_def split: list.splits)
next
  assume a: "task_schedule s \<noteq> [] \<and> distinct (map fst (tasks s))
        \<and> (\<forall>t \<in> fst ` set (tasks s). dict_has (task_schedule s) t)"
  then have "fst ` set (tasks s) \<subseteq> fst ` set (task_schedule s)"
    by (auto simp: dict_has_iff)
  then have "card (fst ` set (tasks s)) \<le> card (fst ` set (task_schedule s))"
    by (intro card_mono) simp_all
  moreover have "card (fst ` set (task_schedule s)) \<le> length (task_schedule s)"
    using card_length[of "map fst (task_schedule s)"] by simp
  moreover have "card (fst ` set (tasks s)) = length (tasks s)"
    using a distinct_card[of "map fst (tasks s)"] by simp
  ultimately have full: "\<not> length (task_schedule s) < length (tasks s)" by simp
  obtain task a0 rest where sch: "task_schedule s = (task, a0) # rest"
    using a by (cases "task_schedule s") auto
  have mn: "fold min (map (\<lambda>(task, a). start_time a) rest) (start_time a0)
        = Min ((\<lambda>(task, a). start_time a) ` set (task_schedule s))"
    by (simp add: fold_min_Min sch)
  have mx: "fold max (map (\<lambda>(task, a). end_time a) rest) (end_time a0)
        = Max ((\<lambda>(task, a). end_time a) ` set (task_schedule s))"
    by (simp add: fold_max_Max sch)
  have "calculate_makespan s =
      working_days_loop s (date (Min ((\<lambda>(task, a). start_time a) ` set (task_schedule s))))
        (date (Max ((\<lambda>(task, a). end_time a) ` set (task_schedule s)))) 0"
    using full mn mx by (simp add: calculate_makespan_def sch Let_def)
  then show "calculate_makespan s =
              int (card {d. date (Min ((\<lambda>(task, a). start_time a) ` set (task_schedule s))) \<le> d
                          \<and> d \<le> date (Max ((\<lambda>(task, a). end_time a) ` set (task_schedule s)))
                          \<and> (\<exists>(product, ts) \<in> set (product_tasks s).
                                 is_working_day s (d * 1440) product)})"
    by (simp add: working_days_loop_count)
qed

theorem makespan_cases_witness:
  "calculate_makespan no_shift_loaded = 0
   \<and> calculate_makespan chain_half_scheduled = 999999
   \<and> calculate_makespan chain_scheduled =
       int (card {d. date (Min ((\<lambda>(task, a). start_time a) ` set (task_schedule chain_scheduled))) \<le> d
                   \<and> d \<le> date (Max ((\<lambda>(task, a). end_time a) ` set (task_schedule chain_scheduled)))
                   \<and> (\<exists>(product, ts) \<in> set (product_tasks chain_scheduled).
                          is_working_day chain_scheduled (d * 1440) product)})
   \<and> calculate_makespan chain_scheduled = 1"
proof -
  have 1: "task_schedule no_shift_loaded = []" by code_simp
  have 2: "task_schedule chain_half_scheduled \<noteq> [] \<and> distinct (map fst (tasks chain_half_scheduled))
        \<and> distinct (map fst (task_schedule chain_half_scheduled))
        \<and> fst ` set (task_schedule chain_half_scheduled) \<subseteq> fst ` set (tasks chain_half_scheduled)
        \<and> (\<exists>t \<in> fst ` set (tasks chain_half_scheduled).
              \<not> dict_has (task_schedule chain_half_scheduled) t)"
    by (simp add: chain_half_scheduled_def chain_example_def empty_scheduler_def dict_has_def)
  have 3: "task_schedule chain_scheduled \<noteq> [] \<and> distinct (map fst (tasks chain_scheduled))
        \<and> (\<forall>t \<in> fst ` set (tasks chain_scheduled). dict_has (task_schedule chain_scheduled) t)"
    by (simp add: chain_scheduled_def chain_example_def empty_scheduler_def dict_has_def)
  have 4: "calculate_makespan chain_scheduled = 1" by code_simp
  show ?thesis
    using makespan_cases[of no_shift_loaded, THEN conjunct1]
      makespan_cases[of chain_half_scheduled, THEN conjunct2, THEN conjunct1]
      makespan_cases[of chain_scheduled, THEN conjunct2, THEN conjunct2]
      1 2 3 4 by blast
qed

text \<open>
  The claim as first stated gives the sentinel also when nothing at all was scheduled.
  In the example one live instance exists and none is scheduled; the result is 0.
\<close>

theorem makespan_cases_counterexample:
  "dict_has (tasks no_shift_loaded) ''P_1'' \<and> \<not> dict_has (task_schedule no_shift_loaded) ''P_1''
   \<and> calculate_makespan no_shift_loaded \<noteq> 999999"
  by code_simp

end
